theory Spec2Isabelle
  imports Main
begin

section \<open>limitedlet: the mutation-accounting engine of \<open>LimitedVariable\<close>\<close>

text \<open>
  A shallow embedding of class \<open>LimitedVariable\<close> (the variant with deep mutation
  tracking) and of the part of the JavaScript runtime it relies on: objects, arrays and
  \<open>Proxy\<close> objects live in an explicit heap, because the class keys a \<open>WeakMap\<close> and a
  \<open>WeakSet\<close> by object identity and replaces properties of its targets in place.

  Conventions of the model:
  \<^item> a property name is a \<open>key\<close>: \<open>KIdx i\<close> is the canonical numeric name of index
    \<open>i\<close> (its decimal numeral), \<open>KStr s\<close> any other name, such as \<open>'x'\<close>, \<open>'length'\<close> or
    \<open>'01'\<close>; the bound \<open>2^32 - 1\<close> of the runtime on the length of an array is not
    modelled; a structural path is the list of its components (the source joins them
    with a dot only to print them);
  \<^item> a callback of the options is external code. The model records each invocation,
    with its argument, in the trace \<open>events\<close>; whether the call returns or throws is
    given by the environment (\<open>raises\<close>, a function of the calls made so far and of the
    present call), and an exception of a callback leaves the class as any other does. The
    model assumes that a callback does not call back into the variable;
  \<^item> \<open>Date.now()\<close> is the field \<open>now\<close> of the environment;
  \<^item> a function that may recurse without a bound in the source takes fuel, and returns
    \<open>None\<close> when the fuel is used up.
\<close>

subsection \<open>Values, heap objects, records of the log, errors\<close>

type_synonym addr = nat

datatype key = KStr string | KIdx nat

datatype jsval = Undefined | Null | Bool bool | Num int | Str string | Ref addr

text \<open>The two handlers are those of \<open>#createObjectProxy\<close> and \<open>#createArrayProxy\<close>;
  a proxy remembers its target and the path its handler closes over. An array has its
  elements and its own properties other than the indices and \<open>length\<close>.
  \<open>SpecialObject\<close> stands for an instance of Date, RegExp, Error, Promise or Buffer.\<close>

datatype handler = ObjectHandler | ArrayHandler

datatype hobj =
    PlainObject "(key \<times> jsval) list"
  | ArrayObject "jsval list" "(key \<times> jsval) list"
  | SpecialObject
  | ProxyObject handler addr "key list"

datatype mtype = Property | Delete | ArrayMethod

datatype hkind = Initial | Mutation | Violation | Reset | DeepMutation

record hist_entry =
  h_value :: jsval
  h_previousValue :: "jsval option"
  h_timestamp :: nat
  h_mutation :: nat
  h_mutationPath :: "key list option"
  h_mutationType :: "mtype option"
  h_type :: hkind

text \<open>A reference to an array of log entries: the private array \<open>#history\<close> itself, or
  the \<open>i\<close>-th array allocated by the \<open>history\<close> getter.\<close>

datatype href = HInternal | HCopy nat

datatype message =
    Custom string
  | ReadAfterViolation
  | VariableFrozen
  | FrozenDeep "key list"
  | LimitExceeded nat nat
  | LimitExceededAt "key list" nat nat
  | ResetDisabled
  | HistoryDisabled
  | NotAFunction
  | NotAnObject

record err_context =
  c_maxMutations :: nat
  c_currentMutations :: nat
  c_attemptedValue :: "jsval option"
  c_currentValue :: "jsval option"
  c_mutationPath :: "key list option"
  c_mutationType :: "mtype option"
  c_frozen :: "bool option"
  c_history :: "href option"

datatype error =
    MutationLimitExceeded message err_context
  | Error message
  | TypeError message

record violation_attempt =
  a_attemptNumber :: nat
  a_attemptedValue :: jsval
  a_currentValue :: jsval
  a_mutationCount :: nat
  a_violationCount :: nat
  a_timestamp :: nat
  a_totalAttempts :: nat
  a_mutationPath :: "key list option"
  a_mutationType :: "mtype option"

record mutation_event =
  e_newValue :: jsval
  e_oldValue :: jsval
  e_mutationCount :: nat
  e_remaining :: nat
  e_mutationPath :: "key list option"
  e_mutationType :: "mtype option"

record last_mutation_event =
  l_value :: jsval
  l_mutationPath :: "key list option"
  l_mutationType :: "mtype option"
  l_history :: "href option"

datatype event =
    OnMutate mutation_event
  | OnViolation error
  | OnLastMutation last_mutation_event
  | OnLimitExceeded violation_attempt

subsection \<open>Options and the state of one \<open>LimitedVariable\<close>\<close>

text \<open>A callback slot is \<open>True\<close> when the caller supplied a function.\<close>

record options =
  trackHistory :: bool
  strictMode :: bool
  allowReset :: bool
  autoFreeze :: bool
  trackDeepMutations :: bool
  onMutate :: bool
  onViolation :: bool
  onLastMutation :: bool
  onLimitExceeded :: bool
  errorMessage :: "string option"

definition default_options :: options where
  "default_options =
     \<lparr>trackHistory = True, strictMode = True, allowReset = False, autoFreeze = True,
      trackDeepMutations = True, onMutate = False, onViolation = False,
      onLastMutation = False, onLimitExceeded = False, errorMessage = None\<rparr>"

text \<open>The private fields, then the environment: the heap, the arrays handed out by the
  \<open>history\<close> getter, the callback trace, the clock, and what the callbacks do: with the
  calls \<open>tr\<close> made so far, the call \<open>e\<close> throws \<open>err\<close> when \<open>raises tr e = Some err\<close> and
  returns otherwise.\<close>

record lv =
  cur_value :: jsval
  maxMutations :: nat
  mutationCount :: nat
  violationCount :: nat
  history :: "hist_entry list"
  opts :: options
  frozen :: bool
  violated :: bool
  onViolationCalled :: bool
  deepProxies :: "(addr \<times> jsval) list"
  mutationPath :: "key list"
  heap :: "hobj list"
  copies :: "hist_entry list list"
  events :: "event list"
  now :: nat
  raises :: "event list \<Rightarrow> event \<Rightarrow> error option"

datatype 'a outcome = Returned 'a | Thrown error

text \<open>\<open>errorMessage || fallback\<close>: an empty override is falsy.\<close>

definition msg_or :: "string option \<Rightarrow> message \<Rightarrow> message" where
  "msg_or em d = (case em of None \<Rightarrow> d | Some m \<Rightarrow> if m = [] then d else Custom m)"

definition emit :: "event \<Rightarrow> lv \<Rightarrow> lv" where
  "emit e s = s\<lparr>events := events s @ [e]\<rparr>"

text \<open>The call of a callback: it is recorded, and it returns or throws.\<close>

definition invoke :: "event \<Rightarrow> lv \<Rightarrow> unit outcome \<times> lv" where
  "invoke e s =
     (case raises s (events s) e of
        None \<Rightarrow> (Returned (), emit e s)
      | Some err \<Rightarrow> (Thrown err, emit e s))"

text \<open>\<open>if (callback) callback(argument)\<close>\<close>

definition call_if :: "bool \<Rightarrow> event \<Rightarrow> lv \<Rightarrow> unit outcome \<times> lv" where
  "call_if supplied e s = (if supplied then invoke e s else (Returned (), s))"

text \<open>The statements after a call run only if the call has returned.\<close>

definition after_call ::
  "unit outcome \<times> lv \<Rightarrow> (lv \<Rightarrow> unit outcome \<times> lv) \<Rightarrow> unit outcome \<times> lv" where
  "after_call r f = (case r of (Returned u, s) \<Rightarrow> f s | (Thrown e, s) \<Rightarrow> (Thrown e, s))"

definition push_history :: "hist_entry \<Rightarrow> lv \<Rightarrow> lv" where
  "push_history r s = (if trackHistory (opts s) then s\<lparr>history := history s @ [r]\<rparr> else s)"

definition history_ref :: "lv \<Rightarrow> href option" where
  "history_ref s = (if trackHistory (opts s) then Some HInternal else None)"

text \<open>\<open>if (onViolation && !#onViolationCalled) { #onViolationCalled = true; onViolation(error) }\<close>\<close>

definition call_onViolation :: "error \<Rightarrow> lv \<Rightarrow> unit outcome \<times> lv" where
  "call_onViolation err s =
     (if onViolation (opts s) \<and> \<not> onViolationCalled s
      then invoke (OnViolation err) (s\<lparr>onViolationCalled := True\<rparr>) else (Returned (), s))"

text \<open>\<open>get remaining\<close>: \<open>Math.max(0, maxMutations - mutationCount)\<close>, which is the
  truncating subtraction of the naturals.\<close>

definition remaining :: "lv \<Rightarrow> nat" where
  "remaining s = maxMutations s - mutationCount s"

text \<open>The tail shared by the setter and \<open>#handleDeepMutation\<close>:
  \<open>if (mutationCount === maxMutations) { if (onLastMutation) onLastMutation(...);
     if (autoFreeze) frozen = true }\<close>\<close>

definition last_mutation_check ::
  "jsval \<Rightarrow> key list option \<Rightarrow> mtype option \<Rightarrow> lv \<Rightarrow> unit outcome \<times> lv" where
  "last_mutation_check newValue path mt s =
     (if mutationCount s = maxMutations s then
        after_call
          (call_if (onLastMutation (opts s))
             (OnLastMutation \<lparr>l_value = newValue, l_mutationPath = path,
                l_mutationType = mt, l_history = history_ref s\<rparr>) s)
          (\<lambda>s1. (Returned (), if autoFreeze (opts s1) then s1\<lparr>frozen := True\<rparr> else s1))
      else (Returned (), s))"

subsection \<open>\<open>get value\<close>\<close>

definition get_value :: "lv \<Rightarrow> jsval outcome \<times> lv" where
  "get_value s =
     (if strictMode (opts s) \<and> violated s
      then (Thrown (MutationLimitExceeded ReadAfterViolation
              \<lparr>c_maxMutations = maxMutations s, c_currentMutations = mutationCount s,
               c_attemptedValue = None, c_currentValue = None, c_mutationPath = None,
               c_mutationType = None, c_frozen = Some (frozen s), c_history = None\<rparr>), s)
      else (Returned (cur_value s), s))"

subsection \<open>\<open>#handleDeepMutation\<close>\<close>

definition hdm_frozen :: "key list \<Rightarrow> jsval \<Rightarrow> jsval \<Rightarrow> mtype \<Rightarrow> lv \<Rightarrow> unit outcome \<times> lv" where
  "hdm_frozen path newValue oldValue mt s =
     (let s1 = s\<lparr>violated := True\<rparr>;
          err = MutationLimitExceeded (msg_or (errorMessage (opts s1)) (FrozenDeep path))
                  \<lparr>c_maxMutations = maxMutations s1, c_currentMutations = mutationCount s1,
                   c_attemptedValue = Some newValue, c_currentValue = Some oldValue,
                   c_mutationPath = Some path, c_mutationType = Some mt,
                   c_frozen = Some True, c_history = None\<rparr>
      in after_call (call_onViolation err s1)
           (\<lambda>s2. if strictMode (opts s2) then (Thrown err, s2) else (Returned (), s2)))"

definition hdm_exceeded :: "key list \<Rightarrow> jsval \<Rightarrow> jsval \<Rightarrow> mtype \<Rightarrow> lv \<Rightarrow> unit outcome \<times> lv" where
  "hdm_exceeded path newValue oldValue mt s =
     (let s1 = s\<lparr>violated := True, violationCount := violationCount s + 1\<rparr>;
          att = \<lparr>a_attemptNumber = violationCount s1, a_attemptedValue = newValue,
                 a_currentValue = oldValue, a_mutationCount = mutationCount s1,
                 a_violationCount = violationCount s1, a_timestamp = now s1,
                 a_totalAttempts = mutationCount s1 + violationCount s1,
                 a_mutationPath = Some path, a_mutationType = Some mt\<rparr>
      in after_call (call_if (onLimitExceeded (opts s1)) (OnLimitExceeded att) s1)
           (\<lambda>s2. if strictMode (opts s2) then
                    (let err = MutationLimitExceeded
                                 (msg_or (errorMessage (opts s2))
                                    (LimitExceededAt path (maxMutations s2)
                                       (mutationCount s2 + violationCount s2)))
                                 \<lparr>c_maxMutations = maxMutations s2,
                                  c_currentMutations = mutationCount s2,
                                  c_attemptedValue = Some newValue,
                                  c_currentValue = Some oldValue,
                                  c_mutationPath = Some path, c_mutationType = Some mt,
                                  c_frozen = None, c_history = history_ref s2\<rparr>
                     in after_call (call_onViolation err s2) (\<lambda>s3. (Thrown err, s3)))
                  else
                    (Returned (),
                     push_history \<lparr>h_value = newValue, h_previousValue = Some oldValue,
                       h_timestamp = now s2, h_mutation = mutationCount s2,
                       h_mutationPath = Some path, h_mutationType = Some mt,
                       h_type = Violation\<rparr> s2)))"

definition hdm_admit :: "key list \<Rightarrow> jsval \<Rightarrow> jsval \<Rightarrow> mtype \<Rightarrow> lv \<Rightarrow> unit outcome \<times> lv" where
  "hdm_admit path newValue oldValue mt s =
     (let s1 = s\<lparr>mutationCount := mutationCount s + 1\<rparr>;
          s2 = push_history \<lparr>h_value = newValue, h_previousValue = Some oldValue,
                 h_timestamp = now s1, h_mutation = mutationCount s1,
                 h_mutationPath = Some path, h_mutationType = Some mt,
                 h_type = DeepMutation\<rparr> s1
      in after_call
           (call_if (onMutate (opts s2))
              (OnMutate \<lparr>e_newValue = newValue, e_oldValue = oldValue,
                 e_mutationCount = mutationCount s2, e_remaining = remaining s2,
                 e_mutationPath = Some path, e_mutationType = Some mt\<rparr>) s2)
           (last_mutation_check newValue (Some path) (Some mt)))"

definition handleDeepMutation ::
  "key list \<Rightarrow> jsval \<Rightarrow> jsval \<Rightarrow> mtype \<Rightarrow> lv \<Rightarrow> unit outcome \<times> lv" where
  "handleDeepMutation path newValue oldValue mt s =
     (let s0 = s\<lparr>mutationPath := path\<rparr>
      in if frozen s0 then hdm_frozen path newValue oldValue mt s0
         else if maxMutations s0 \<le> mutationCount s0
         then hdm_exceeded path newValue oldValue mt s0
         else hdm_admit path newValue oldValue mt s0)"

subsection \<open>\<open>set value\<close>\<close>

text \<open>The three blocks of the setter: the variable is frozen; the limit is used up;
  the write is admitted. \<open>stored\<close> is what \<open>#value\<close> receives, the new value or its
  deep proxy; \<open>oldValue\<close> was read before the wrapping.\<close>

definition set_frozen :: "jsval \<Rightarrow> lv \<Rightarrow> unit outcome \<times> lv" where
  "set_frozen newValue s =
     (let s1 = s\<lparr>violated := True\<rparr>;
          err = MutationLimitExceeded (msg_or (errorMessage (opts s1)) VariableFrozen)
                  \<lparr>c_maxMutations = maxMutations s1, c_currentMutations = mutationCount s1,
                   c_attemptedValue = Some newValue, c_currentValue = Some (cur_value s1),
                   c_mutationPath = None, c_mutationType = None,
                   c_frozen = Some True, c_history = None\<rparr>
      in after_call (call_onViolation err s1)
           (\<lambda>s2. if strictMode (opts s2) then (Thrown err, s2) else (Returned (), s2)))"

definition set_exceeded :: "jsval \<Rightarrow> lv \<Rightarrow> unit outcome \<times> lv" where
  "set_exceeded newValue s =
     (let s1 = s\<lparr>violated := True, violationCount := violationCount s + 1\<rparr>;
          att = \<lparr>a_attemptNumber = violationCount s1, a_attemptedValue = newValue,
                 a_currentValue = cur_value s1, a_mutationCount = mutationCount s1,
                 a_violationCount = violationCount s1, a_timestamp = now s1,
                 a_totalAttempts = mutationCount s1 + violationCount s1,
                 a_mutationPath = None, a_mutationType = None\<rparr>
      in after_call (call_if (onLimitExceeded (opts s1)) (OnLimitExceeded att) s1)
           (\<lambda>s2. if strictMode (opts s2) then
                    (let err = MutationLimitExceeded
                                 (msg_or (errorMessage (opts s2))
                                    (LimitExceeded (maxMutations s2)
                                       (mutationCount s2 + violationCount s2)))
                                 \<lparr>c_maxMutations = maxMutations s2,
                                  c_currentMutations = mutationCount s2,
                                  c_attemptedValue = Some newValue,
                                  c_currentValue = Some (cur_value s2),
                                  c_mutationPath = None, c_mutationType = None,
                                  c_frozen = None, c_history = history_ref s2\<rparr>
                     in after_call (call_onViolation err s2) (\<lambda>s3. (Thrown err, s3)))
                  else
                    (let oldValue = cur_value s2; s3 = s2\<lparr>cur_value := newValue\<rparr>
                     in (Returned (),
                         push_history \<lparr>h_value = newValue, h_previousValue = Some oldValue,
                           h_timestamp = now s3, h_mutation = mutationCount s3,
                           h_mutationPath = None, h_mutationType = None,
                           h_type = Violation\<rparr> s3))))"

definition set_admit :: "jsval \<Rightarrow> jsval \<Rightarrow> jsval \<Rightarrow> lv \<Rightarrow> unit outcome \<times> lv" where
  "set_admit newValue oldValue stored s =
     (let s1 = s\<lparr>cur_value := stored, mutationCount := mutationCount s + 1\<rparr>;
          s2 = push_history \<lparr>h_value = newValue, h_previousValue = Some oldValue,
                 h_timestamp = now s1, h_mutation = mutationCount s1,
                 h_mutationPath = None, h_mutationType = None,
                 h_type = Mutation\<rparr> s1
      in after_call
           (call_if (onMutate (opts s2))
              (OnMutate \<lparr>e_newValue = newValue, e_oldValue = oldValue,
                 e_mutationCount = mutationCount s2, e_remaining = remaining s2,
                 e_mutationPath = None, e_mutationType = None\<rparr>) s2)
           (last_mutation_check newValue None None))"

subsection \<open>\<open>freeze\<close>, \<open>reset\<close>, \<open>get history\<close>, \<open>toJSON\<close>\<close>

definition freeze :: "lv \<Rightarrow> lv" where
  "freeze s = s\<lparr>frozen := True\<rparr>"

definition reset :: "lv \<Rightarrow> unit outcome \<times> lv" where
  "reset s =
     (if \<not> allowReset (opts s) then (Thrown (Error ResetDisabled), s)
      else
        (let s1 = s\<lparr>mutationCount := 0, violationCount := 0, frozen := False,
                    violated := False, onViolationCalled := False,
                    deepProxies := [], mutationPath := []\<rparr>
         in (Returned (),
             push_history \<lparr>h_value = cur_value s1, h_previousValue = None,
               h_timestamp = now s1, h_mutation = 0, h_mutationPath = None,
               h_mutationType = None, h_type = Reset\<rparr> s1)))"

text \<open>\<open>return [...this.#history]\<close>: a new array with the entries of the log.\<close>

definition get_history :: "lv \<Rightarrow> href outcome \<times> lv" where
  "get_history s =
     (if \<not> trackHistory (opts s) then (Thrown (Error HistoryDisabled), s)
      else (Returned (HCopy (length (copies s))), s\<lparr>copies := copies s @ [history s]\<rparr>))"

text \<open>What a reference to an array of entries holds, and what an in-place edit of that
  array by its holder (\<open>push\<close>, \<open>pop\<close>, \<open>splice\<close>, an index or \<open>length\<close> assignment: any
  function \<open>f\<close> on the sequence of entries) does to the state.\<close>

definition hist_deref :: "lv \<Rightarrow> href \<Rightarrow> hist_entry list option" where
  "hist_deref s r =
     (case r of HInternal \<Rightarrow> Some (history s)
      | HCopy i \<Rightarrow> if i < length (copies s) then Some (copies s ! i) else None)"

definition hist_array_edit :: "href \<Rightarrow> (hist_entry list \<Rightarrow> hist_entry list) \<Rightarrow> lv \<Rightarrow> lv" where
  "hist_array_edit r f s =
     (case r of HInternal \<Rightarrow> s\<lparr>history := f (history s)\<rparr>
      | HCopy i \<Rightarrow> if i < length (copies s) then s\<lparr>copies := (copies s)[i := f (copies s ! i)]\<rparr>
                   else s)"

record json =
  j_value :: jsval
  j_maxMutations :: nat
  j_mutationCount :: nat
  j_violationCount :: nat
  j_remaining :: nat
  j_frozen :: bool
  j_history :: "href option"

definition toJSON :: "lv \<Rightarrow> json" where
  "toJSON s =
     \<lparr>j_value = cur_value s, j_maxMutations = maxMutations s,
      j_mutationCount = mutationCount s, j_violationCount = violationCount s,
      j_remaining = remaining s, j_frozen = frozen s, j_history = history_ref s\<rparr>"

definition isDepleted :: "lv \<Rightarrow> bool" where
  "isDepleted s = (maxMutations s \<le> mutationCount s)"

subsection \<open>Computations on the state\<close>

text \<open>A computation returns a value or throws, in a new state; \<open>None\<close> is fuel used up.\<close>

type_synonym 'a comp = "lv \<Rightarrow> ('a outcome \<times> lv) option"

definition ret :: "'a \<Rightarrow> 'a comp" where
  "ret x = (\<lambda>s. Some (Returned x, s))"

definition throw :: "error \<Rightarrow> 'a comp" where
  "throw e = (\<lambda>s. Some (Thrown e, s))"

definition andThen :: "'a comp \<Rightarrow> ('a \<Rightarrow> 'b comp) \<Rightarrow> 'b comp" where
  "andThen m f =
     (\<lambda>s. case m s of None \<Rightarrow> None
          | Some (Thrown e, s') \<Rightarrow> Some (Thrown e, s')
          | Some (Returned x, s') \<Rightarrow> f x s')"

definition gets :: "(lv \<Rightarrow> 'a) \<Rightarrow> 'a comp" where
  "gets f = (\<lambda>s. Some (Returned (f s), s))"

definition lift :: "(lv \<Rightarrow> 'a outcome \<times> lv) \<Rightarrow> 'a comp" where
  "lift f = (\<lambda>s. Some (f s))"

definition set_heap :: "hobj list \<Rightarrow> unit comp" where
  "set_heap h = (\<lambda>s. Some (Returned (), s\<lparr>heap := h\<rparr>))"

definition alloc :: "hobj \<Rightarrow> addr comp" where
  "alloc ob = (\<lambda>s. Some (Returned (length (heap s)), s\<lparr>heap := heap s @ [ob]\<rparr>))"

text \<open>\<open>this.#deepProxies.set(obj, proxy)\<close>\<close>

definition deepProxies_set :: "addr \<Rightarrow> jsval \<Rightarrow> unit comp" where
  "deepProxies_set ob p = (\<lambda>s. Some (Returned (), s\<lparr>deepProxies := (ob, p) # deepProxies s\<rparr>))"

subsection \<open>The runtime: reading and writing properties of heap objects\<close>

definition heap_at :: "hobj list \<Rightarrow> addr \<Rightarrow> hobj option" where
  "heap_at h a = (if a < length h then Some (h ! a) else None)"

text \<open>The object behind a chain of proxies. No handler of the class traps a read other
  than that of a mutating array method, so reads go to this object.\<close>

fun resolve :: "nat \<Rightarrow> hobj list \<Rightarrow> addr \<Rightarrow> addr option" where
  "resolve 0 h a = None"
| "resolve (Suc n) h a =
     (case heap_at h a of
        None \<Rightarrow> None
      | Some (ProxyObject hk t path) \<Rightarrow> resolve n h t
      | Some _ \<Rightarrow> Some a)"

definition base_of :: "hobj list \<Rightarrow> addr \<Rightarrow> hobj option" where
  "base_of h a = (case resolve (Suc (length h)) h a of None \<Rightarrow> None | Some b \<Rightarrow> heap_at h b)"

text \<open>\<open>value !== null && typeof value === 'object' && !this.#isSpecialObject(value)\<close>\<close>

definition isObjectOrArray :: "hobj list \<Rightarrow> jsval \<Rightarrow> bool" where
  "isObjectOrArray h v =
     (case v of
        Ref a \<Rightarrow> (case heap_at h a of None \<Rightarrow> False | Some SpecialObject \<Rightarrow> False | Some _ \<Rightarrow> True)
      | _ \<Rightarrow> False)"

text \<open>\<open>Array.isArray\<close> looks through proxies.\<close>

definition isArray :: "hobj list \<Rightarrow> addr \<Rightarrow> bool" where
  "isArray h a = (case base_of h a of Some (ArrayObject xs ps) \<Rightarrow> True | _ \<Rightarrow> False)"

definition js_length :: "hobj list \<Rightarrow> addr \<Rightarrow> nat" where
  "js_length h a = (case base_of h a of Some (ArrayObject xs ps) \<Rightarrow> length xs | _ \<Rightarrow> 0)"

definition js_get :: "hobj list \<Rightarrow> addr \<Rightarrow> key \<Rightarrow> jsval" where
  "js_get h a k =
     (case base_of h a of
        Some (PlainObject fs) \<Rightarrow> (case map_of fs k of None \<Rightarrow> Undefined | Some v \<Rightarrow> v)
      | Some (ArrayObject xs ps) \<Rightarrow>
          (case k of
             KIdx i \<Rightarrow> if i < length xs then xs ! i else Undefined
           | KStr n \<Rightarrow>
               if n = ''length'' then Num (int (length xs))
               else (case map_of ps k of None \<Rightarrow> Undefined | Some v \<Rightarrow> v))
      | _ \<Rightarrow> Undefined)"

text \<open>The own enumerable names of a plain data object, as \<open>for (const key in target)\<close>
  with \<open>target.hasOwnProperty(key)\<close> visits them.\<close>

definition own_keys :: "hobj list \<Rightarrow> addr \<Rightarrow> key list" where
  "own_keys h a = (case base_of h a of Some (PlainObject fs) \<Rightarrow> map fst fs | _ \<Rightarrow> [])"

fun put :: "(key \<times> jsval) list \<Rightarrow> key \<Rightarrow> jsval \<Rightarrow> (key \<times> jsval) list" where
  "put [] k v = [(k, v)]"
| "put ((k', x) # fs) k v = (if k' = k then (k, v) # fs else (k', x) # put fs k v)"

text \<open>Assignment to a property of an array. An index at or past the end extends the
  array; the holes read \<open>undefined\<close>. Assigning \<open>length\<close> a natural number cuts or
  extends. Any other name is an ordinary property.\<close>

definition arr_put :: "jsval list \<Rightarrow> (key \<times> jsval) list \<Rightarrow> key \<Rightarrow> jsval \<Rightarrow> hobj" where
  "arr_put xs ps k v =
     (case k of
        KIdx i \<Rightarrow> ArrayObject (if i < length xs then xs[i := v]
                                 else xs @ replicate (i - length xs) Undefined @ [v]) ps
      | KStr n \<Rightarrow>
          if n = ''length'' then
            (case v of
               Num l \<Rightarrow> if 0 \<le> l
                        then ArrayObject (take (nat l) xs @ replicate (nat l - length xs) Undefined) ps
                        else ArrayObject xs ps
             | _ \<Rightarrow> ArrayObject xs ps)
          else ArrayObject xs (put ps k v))"

definition arr_delete :: "jsval list \<Rightarrow> (key \<times> jsval) list \<Rightarrow> key \<Rightarrow> hobj" where
  "arr_delete xs ps k =
     (case k of
        KIdx i \<Rightarrow> ArrayObject (if i < length xs then xs[i := Undefined] else xs) ps
      | KStr n \<Rightarrow> ArrayObject xs (filter (\<lambda>p. fst p \<noteq> k) ps))"

text \<open>\<open>/^\d+$/.test(prop)\<close>: the name is a nonempty string of decimal digits. The name of
  an index is one; so is a name such as \<open>'01'\<close>, which is not an index.\<close>

definition is_digit :: "char \<Rightarrow> bool" where
  "is_digit c = (c \<in> set ''0123456789'')"

definition all_digits :: "key \<Rightarrow> bool" where
  "all_digits k = (case k of KIdx i \<Rightarrow> True | KStr n \<Rightarrow> n \<noteq> [] \<and> list_all is_digit n)"

definition has_proxy :: "(addr \<times> jsval) list \<Rightarrow> jsval \<Rightarrow> bool" where
  "has_proxy dp v = (case v of Ref a \<Rightarrow> map_of dp a \<noteq> None | _ \<Rightarrow> False)"

definition addr_of :: "jsval \<Rightarrow> addr" where
  "addr_of v = (case v of Ref a \<Rightarrow> a | _ \<Rightarrow> 0)"

subsection \<open>The interception layer\<close>

text \<open>\<open>new Proxy(obj, handler)\<close> of \<open>#createObjectProxy\<close> and \<open>#createArrayProxy\<close>.\<close>

definition createObjectProxy :: "addr \<Rightarrow> key list \<Rightarrow> jsval comp" where
  "createObjectProxy ob path = andThen (alloc (ProxyObject ObjectHandler ob path)) (\<lambda>p. ret (Ref p))"

definition createArrayProxy :: "addr \<Rightarrow> key list \<Rightarrow> jsval comp" where
  "createArrayProxy arr path = andThen (alloc (ProxyObject ArrayHandler arr path)) (\<lambda>p. ret (Ref p))"

text \<open>
  \<open>#createDeepProxy\<close> with its local function \<open>createProxy\<close> (whose set
  \<open>processedObjects\<close> is threaded through), the two loops of \<open>createProxy\<close>, and the
  assignment \<open>target[key] = v\<close> of the runtime, which runs the \<open>set\<close> trap when the
  target is a proxy of this class:
  \<^item> the object handler reports every assignment to \<open>#handleDeepMutation\<close>, the array
    handler those to a name of digits (\<open>prop !== 'length' && /^\d+$/.test(prop)\<close>);
  \<^item> the trap then wraps a container value and ends in \<open>Reflect.set(target, ...)\<close>,
    which is the same assignment on the target.

  The five functions call each other. Each body below takes the functions it calls as
  parameters (named as in the source, with suffix \<open>R\<close>); \<open>layer\<close> ties the knot on the
  fuel.
\<close>

definition createDeepProxy_body ::
  "(addr list \<Rightarrow> addr \<Rightarrow> key list \<Rightarrow> (jsval \<times> addr list) comp) \<Rightarrow>
   addr \<Rightarrow> key list \<Rightarrow> jsval comp" where
  "createDeepProxy_body createProxyR ob path =
     andThen (gets deepProxies) (\<lambda>dp.
       case map_of dp ob of
         Some p \<Rightarrow> ret p
       | None \<Rightarrow>
           andThen (createProxyR [] ob path) (\<lambda>(proxy, pr).
           andThen (deepProxies_set ob proxy) (\<lambda>u. ret proxy)))"

definition createProxy_body ::
  "(addr list \<Rightarrow> addr \<Rightarrow> key list \<Rightarrow> nat \<Rightarrow> addr list comp) \<Rightarrow>
   (addr list \<Rightarrow> addr \<Rightarrow> key list \<Rightarrow> key list \<Rightarrow> addr list comp) \<Rightarrow>
   addr list \<Rightarrow> addr \<Rightarrow> key list \<Rightarrow> (jsval \<times> addr list) comp" where
  "createProxy_body wrapElementsR wrapPropertiesR pr target currentPath =
     (if target \<in> set pr then ret (Ref target, pr)
      else
        andThen (gets heap) (\<lambda>h.
          if isArray h target then
            andThen (wrapElementsR (target # pr) target currentPath 0) (\<lambda>pr'.
            andThen (createArrayProxy target currentPath) (\<lambda>p. ret (p, pr')))
          else if isObjectOrArray h (Ref target) then
            andThen (wrapPropertiesR (target # pr) target currentPath (own_keys h target)) (\<lambda>pr'.
            andThen (createObjectProxy target currentPath) (\<lambda>p. ret (p, pr')))
          else ret (Ref target, target # pr)))"

text \<open>\<open>for (let i = 0; i < target.length; i++)
    if (isObjectOrArray(target[i]) && !deepProxies.has(target[i]))
      target[i] = createProxy(target[i], [...currentPath, i])\<close>, from index \<open>i\<close> on.\<close>

definition wrapElements_body ::
  "(addr list \<Rightarrow> addr \<Rightarrow> key list \<Rightarrow> (jsval \<times> addr list) comp) \<Rightarrow>
   (addr \<Rightarrow> key \<Rightarrow> jsval \<Rightarrow> unit comp) \<Rightarrow>
   (addr list \<Rightarrow> addr \<Rightarrow> key list \<Rightarrow> nat \<Rightarrow> addr list comp) \<Rightarrow>
   addr list \<Rightarrow> addr \<Rightarrow> key list \<Rightarrow> nat \<Rightarrow> addr list comp" where
  "wrapElements_body createProxyR js_setR wrapElementsR pr target currentPath i =
     andThen (gets (\<lambda>s. s)) (\<lambda>s.
       if i < js_length (heap s) target then
         (let v = js_get (heap s) target (KIdx i)
          in if isObjectOrArray (heap s) v \<and> \<not> has_proxy (deepProxies s) v then
               andThen (createProxyR pr (addr_of v) (currentPath @ [KIdx i])) (\<lambda>(p, pr').
               andThen (js_setR target (KIdx i) p) (\<lambda>u.
               wrapElementsR pr' target currentPath (Suc i)))
             else wrapElementsR pr target currentPath (Suc i))
       else ret pr)"

text \<open>\<open>for (const key in target)
    if (target.hasOwnProperty(key) && isObjectOrArray(target[key]) && !deepProxies.has(target[key]))
      target[key] = createProxy(target[key], [...currentPath, key])\<close>, over the names
  still to visit.\<close>

definition wrapProperties_body ::
  "(addr list \<Rightarrow> addr \<Rightarrow> key list \<Rightarrow> (jsval \<times> addr list) comp) \<Rightarrow>
   (addr \<Rightarrow> key \<Rightarrow> jsval \<Rightarrow> unit comp) \<Rightarrow>
   (addr list \<Rightarrow> addr \<Rightarrow> key list \<Rightarrow> key list \<Rightarrow> addr list comp) \<Rightarrow>
   addr list \<Rightarrow> addr \<Rightarrow> key list \<Rightarrow> key list \<Rightarrow> addr list comp" where
  "wrapProperties_body createProxyR js_setR wrapPropertiesR pr target currentPath ks =
     (case ks of
        [] \<Rightarrow> ret pr
      | k # ks' \<Rightarrow>
          andThen (gets (\<lambda>s. s)) (\<lambda>s.
            (let v = js_get (heap s) target k
             in if isObjectOrArray (heap s) v \<and> \<not> has_proxy (deepProxies s) v then
                  andThen (createProxyR pr (addr_of v) (currentPath @ [k])) (\<lambda>(p, pr').
                  andThen (js_setR target k p) (\<lambda>u.
                  wrapPropertiesR pr' target currentPath ks'))
                else wrapPropertiesR pr target currentPath ks')))"

definition js_set_body ::
  "(addr \<Rightarrow> key list \<Rightarrow> jsval comp) \<Rightarrow> (addr \<Rightarrow> key \<Rightarrow> jsval \<Rightarrow> unit comp) \<Rightarrow>
   addr \<Rightarrow> key \<Rightarrow> jsval \<Rightarrow> unit comp" where
  "js_set_body createDeepProxyR js_setR a k v =
     andThen (gets heap) (\<lambda>h.
       case heap_at h a of
         None \<Rightarrow> throw (TypeError NotAnObject)
       | Some (PlainObject fs) \<Rightarrow> set_heap (h[a := PlainObject (put fs k v)])
       | Some (ArrayObject xs ps) \<Rightarrow> set_heap (h[a := arr_put xs ps k v])
       | Some SpecialObject \<Rightarrow> ret ()
       | Some (ProxyObject hk target path) \<Rightarrow>
           if hk = ObjectHandler \<or> (k \<noteq> KStr ''length'' \<and> all_digits k) then
             andThen (lift (handleDeepMutation (path @ [k]) v (js_get h target k) Property)) (\<lambda>u.
             andThen (gets heap) (\<lambda>h'.
             andThen (if isObjectOrArray h' v then createDeepProxyR (addr_of v) (path @ [k])
                      else ret v) (\<lambda>v'.
             js_setR target k v')))
           else js_setR target k v)"

type_synonym layer_funs =
  "(addr \<Rightarrow> key list \<Rightarrow> jsval comp) \<times>
   (addr list \<Rightarrow> addr \<Rightarrow> key list \<Rightarrow> (jsval \<times> addr list) comp) \<times>
   (addr list \<Rightarrow> addr \<Rightarrow> key list \<Rightarrow> nat \<Rightarrow> addr list comp) \<times>
   (addr list \<Rightarrow> addr \<Rightarrow> key list \<Rightarrow> key list \<Rightarrow> addr list comp) \<times>
   (addr \<Rightarrow> key \<Rightarrow> jsval \<Rightarrow> unit comp)"

primrec layer :: "nat \<Rightarrow> layer_funs" where
  "layer 0 =
     (\<lambda>ob path s. None, \<lambda>pr target path s. None, \<lambda>pr target path i s. None,
      \<lambda>pr target path ks s. None, \<lambda>a k v s. None)"
| "layer (Suc n) =
     (case layer n of (cdp, cp, we, wp, js) \<Rightarrow>
        (createDeepProxy_body cp, createProxy_body we wp, wrapElements_body cp js we,
         wrapProperties_body cp js wp, js_set_body cdp js))"

definition createDeepProxy :: "nat \<Rightarrow> addr \<Rightarrow> key list \<Rightarrow> jsval comp" where
  "createDeepProxy n = fst (layer n)"

definition createProxy :: "nat \<Rightarrow> addr list \<Rightarrow> addr \<Rightarrow> key list \<Rightarrow> (jsval \<times> addr list) comp" where
  "createProxy n = fst (snd (layer n))"

definition wrapElements :: "nat \<Rightarrow> addr list \<Rightarrow> addr \<Rightarrow> key list \<Rightarrow> nat \<Rightarrow> addr list comp" where
  "wrapElements n = fst (snd (snd (layer n)))"

definition wrapProperties :: "nat \<Rightarrow> addr list \<Rightarrow> addr \<Rightarrow> key list \<Rightarrow> key list \<Rightarrow> addr list comp" where
  "wrapProperties n = fst (snd (snd (snd (layer n))))"

definition js_set :: "nat \<Rightarrow> addr \<Rightarrow> key \<Rightarrow> jsval \<Rightarrow> unit comp" where
  "js_set n = snd (snd (snd (snd (layer n))))"

text \<open>\<open>#rewrapArrayElements(arr, path)\<close>, from index \<open>i\<close> on.\<close>

primrec rewrapArrayElements :: "nat \<Rightarrow> addr \<Rightarrow> key list \<Rightarrow> nat \<Rightarrow> unit comp" where
  "rewrapArrayElements 0 = (\<lambda>arr path i s. None)"
| "rewrapArrayElements (Suc n) =
     (\<lambda>arr path i.
        andThen (gets (\<lambda>s. s)) (\<lambda>s.
          if i < js_length (heap s) arr then
            (let v = js_get (heap s) arr (KIdx i)
             in if isObjectOrArray (heap s) v \<and> \<not> has_proxy (deepProxies s) v then
                  andThen (createDeepProxy n (addr_of v) (path @ [KIdx i])) (\<lambda>p.
                  andThen (js_set n arr (KIdx i) p) (\<lambda>u.
                  rewrapArrayElements n arr path (Suc i)))
                else rewrapArrayElements n arr path (Suc i))
          else ret ()))"

text \<open>The eight names of \<open>mutatingMethods\<close>.\<close>

datatype mutating_method = Push | Pop | Shift | Unshift | Splice | Sort | Reverse | Fill

definition method_name :: "mutating_method \<Rightarrow> string" where
  "method_name m =
     (case m of Push \<Rightarrow> ''push'' | Pop \<Rightarrow> ''pop'' | Shift \<Rightarrow> ''shift''
      | Unshift \<Rightarrow> ''unshift'' | Splice \<Rightarrow> ''splice'' | Sort \<Rightarrow> ''sort''
      | Reverse \<Rightarrow> ''reverse'' | Fill \<Rightarrow> ''fill'')"

text \<open>
  The call \<open>a.m(...args)\<close> of a mutating method. On an array of the runtime it is the
  built-in method, whose effect on the elements is the parameter \<open>eff\<close>. On a proxy with
  the array handler, the \<open>get\<close> trap has returned the wrapper
  \<open>(...args) => { handleDeepMutation([...path, `${prop}()`], args, undefined, 'array-method');
     const result = value.apply(target, args); rewrapArrayElements(target, path); return result }\<close>
  where \<open>value\<close> is the same method read from the target. The result of the built-in
  method is not represented.
\<close>

primrec js_call :: "nat \<Rightarrow> addr \<Rightarrow> mutating_method \<Rightarrow> jsval list \<Rightarrow> (jsval list \<Rightarrow> jsval list) \<Rightarrow> unit comp" where
  "js_call 0 = (\<lambda>a m args eff s. None)"
| "js_call (Suc n) =
     (\<lambda>a m args eff.
        andThen (gets heap) (\<lambda>h.
          case heap_at h a of
            Some (ArrayObject xs ps) \<Rightarrow> set_heap (h[a := ArrayObject (eff xs) ps])
          | Some (ProxyObject ArrayHandler target path) \<Rightarrow>
              andThen (alloc (ArrayObject args [])) (\<lambda>argsArray.
              andThen (lift (handleDeepMutation (path @ [KStr (method_name m @ ''()'')])
                         (Ref argsArray) Undefined ArrayMethod)) (\<lambda>u.
              andThen (js_call n target m args eff) (\<lambda>u.
              rewrapArrayElements n target path 0)))
          | _ \<Rightarrow> throw (TypeError NotAFunction)))"

text \<open>\<open>delete a[k]\<close>: the object handler has a \<open>deleteProperty\<close> trap, the array handler
  has none.\<close>

primrec js_delete :: "nat \<Rightarrow> addr \<Rightarrow> key \<Rightarrow> unit comp" where
  "js_delete 0 = (\<lambda>a k s. None)"
| "js_delete (Suc n) =
     (\<lambda>a k.
        andThen (gets heap) (\<lambda>h.
          case heap_at h a of
            None \<Rightarrow> throw (TypeError NotAnObject)
          | Some (PlainObject fs) \<Rightarrow> set_heap (h[a := PlainObject (filter (\<lambda>p. fst p \<noteq> k) fs)])
          | Some (ArrayObject xs ps) \<Rightarrow> set_heap (h[a := arr_delete xs ps k])
          | Some SpecialObject \<Rightarrow> ret ()
          | Some (ProxyObject ObjectHandler target path) \<Rightarrow>
              andThen (lift (handleDeepMutation (path @ [k]) Undefined (js_get h target k) Delete)) (\<lambda>u.
              js_delete n target k)
          | Some (ProxyObject ArrayHandler target path) \<Rightarrow> js_delete n target k))"

subsection \<open>The setter and the constructor\<close>

text \<open>\<open>trackDeepMutations && #isObjectOrArray(v) ? #createDeepProxy(v, []) : v\<close>, what
  the constructor and the setter store.\<close>

definition wrap_value :: "nat \<Rightarrow> jsval \<Rightarrow> jsval comp" where
  "wrap_value n v =
     (\<lambda>s. if trackDeepMutations (opts s) \<and> isObjectOrArray (heap s) v
          then createDeepProxy n (addr_of v) [] s else ret v s)"

definition set_value :: "nat \<Rightarrow> jsval \<Rightarrow> unit comp" where
  "set_value n newValue =
     (\<lambda>s. if frozen s then Some (set_frozen newValue s)
          else if maxMutations s \<le> mutationCount s then Some (set_exceeded newValue s)
          else
            (let oldValue = cur_value s
             in andThen (wrap_value n newValue)
                  (\<lambda>stored. lift (set_admit newValue oldValue stored)) s))"

text \<open>\<open>new LimitedVariable(initialValue, maxMutations, options)\<close> in an environment with
  heap \<open>h\<close>, clock \<open>t\<close> and callbacks that behave as \<open>b\<close> says; \<open>limitedLet\<close> wraps the
  instance in a proxy that forwards \<open>value\<close> and the other members to it.\<close>

definition new_LimitedVariable ::
  "nat \<Rightarrow> jsval \<Rightarrow> nat \<Rightarrow> options \<Rightarrow> hobj list \<Rightarrow> nat \<Rightarrow> (event list \<Rightarrow> event \<Rightarrow> error option) \<Rightarrow>
   (unit outcome \<times> lv) option" where
  "new_LimitedVariable n initialValue maxM options h t b =
     (let o1 = (if \<not> strictMode options then options\<lparr>autoFreeze := False\<rparr> else options);
          s0 = \<lparr>cur_value = Undefined, maxMutations = maxM, mutationCount = 0,
                violationCount = 0, history = [], opts = o1, frozen = False,
                violated = False, onViolationCalled = False, deepProxies = [],
                mutationPath = [], heap = h, copies = [], events = [], now = t, raises = b\<rparr>
      in andThen (wrap_value n initialValue)
           (\<lambda>stored s. Some (Returned (),
              push_history \<lparr>h_value = initialValue, h_previousValue = None,
                h_timestamp = now s, h_mutation = 0, h_mutationPath = None,
                h_mutationType = None, h_type = Initial\<rparr> (s\<lparr>cur_value := stored\<rparr>))) s0)"

text \<open>Callbacks that always return.\<close>

definition returning :: "event list \<Rightarrow> event \<Rightarrow> error option" where
  "returning tr e = None"

subsection \<open>Operations of a caller, and runs\<close>

text \<open>
  What code holding the variable and references into the heap can do, one operation at
  a time: assign \<open>value\<close>, read it, assign or delete a property of any object (through a
  proxy of the variable or not), call a mutating method on an array or array proxy,
  \<open>freeze()\<close>, \<open>reset()\<close>, read \<open>history\<close>, or run code of its own that allocates and
  edits objects without passing through a proxy. An exception is caught by the caller,
  who goes on with the state the operation left.
\<close>

datatype op =
    Write jsval
  | Read
  | Assign addr key jsval
  | Remove addr key
  | Invoke addr mutating_method "jsval list" "jsval list \<Rightarrow> jsval list"
  | Freeze
  | ResetVar
  | ReadHistory
  | Caller "hobj list \<Rightarrow> hobj list"

definition exec :: "nat \<Rightarrow> op \<Rightarrow> unit comp" where
  "exec n ope =
     (case ope of
        Write v \<Rightarrow> set_value n v
      | Read \<Rightarrow> andThen (lift get_value) (\<lambda>v. ret ())
      | Assign a k v \<Rightarrow> js_set n a k v
      | Remove a k \<Rightarrow> js_delete n a k
      | Invoke a m args eff \<Rightarrow> js_call n a m args eff
      | Freeze \<Rightarrow> (\<lambda>s. Some (Returned (), freeze s))
      | ResetVar \<Rightarrow> lift reset
      | ReadHistory \<Rightarrow> andThen (lift get_history) (\<lambda>r. ret ())
      | Caller f \<Rightarrow> (\<lambda>s. Some (Returned (), s\<lparr>heap := f (heap s)\<rparr>)))"

fun run :: "nat \<Rightarrow> op list \<Rightarrow> lv \<Rightarrow> lv option" where
  "run n [] s = Some s"
| "run n (ope # ops) s = (case exec n ope s of None \<Rightarrow> None | Some (r, s') \<Rightarrow> run n ops s')"

definition is_reset :: "op \<Rightarrow> bool" where
  "is_reset ope = (case ope of ResetVar \<Rightarrow> True | _ \<Rightarrow> False)"

text \<open>The steps by which the class itself changes the state of a variable, apart from
  \<open>reset\<close>: one pass of \<open>#handleDeepMutation\<close>, one of the three blocks of the setter,
  \<open>freeze\<close>, and changes of the environment fields.\<close>

inductive gstep :: "lv \<Rightarrow> lv \<Rightarrow> bool" where
  g_deep: "gstep s (snd (handleDeepMutation p nv ov mt s))"
| g_set_frozen: "frozen s \<Longrightarrow> gstep s (snd (set_frozen v s))"
| g_set_exceeded:
    "\<not> frozen s \<Longrightarrow> maxMutations s \<le> mutationCount s \<Longrightarrow> gstep s (snd (set_exceeded v s))"
| g_set_admit: "gstep s (snd (set_admit nv ov st s))"
| g_freeze: "gstep s (freeze s)"
| g_env: "gstep s (s\<lparr>deepProxies := d, heap := h, copies := c, now := t\<rparr>)"

definition pres :: "'a comp \<Rightarrow> bool" where
  "pres m = (\<forall>s r s'. m s = Some (r, s') \<longrightarrow> gstep\<^sup>*\<^sup>* s s')"

subsection \<open>Observations on the callback trace\<close>

definition is_onViolation :: "event \<Rightarrow> bool" where
  "is_onViolation e = (case e of OnViolation x \<Rightarrow> True | _ \<Rightarrow> False)"

definition is_onLastMutation :: "event \<Rightarrow> bool" where
  "is_onLastMutation e = (case e of OnLastMutation x \<Rightarrow> True | _ \<Rightarrow> False)"

definition is_onLimitExceeded :: "event \<Rightarrow> bool" where
  "is_onLimitExceeded e = (case e of OnLimitExceeded x \<Rightarrow> True | _ \<Rightarrow> False)"

definition onViolation_calls :: "lv \<Rightarrow> nat" where
  "onViolation_calls s = length (filter is_onViolation (events s))"

definition onLastMutation_calls :: "lv \<Rightarrow> nat" where
  "onLastMutation_calls s = length (filter is_onLastMutation (events s))"

text \<open>The calls of \<open>onViolation\<close> so far, plus the one the one-shot flag still allows.\<close>

definition violation_budget :: "lv \<Rightarrow> nat" where
  "violation_budget s = onViolation_calls s + (if onViolationCalled s then 0 else 1)"

text \<open>The callback \<open>onLastMutation\<close> was supplied, the limit is positive and the count
  has reached it.\<close>

definition reached :: "lv \<Rightarrow> bool" where
  "reached s =
     (onLastMutation (opts s) \<and> 0 < maxMutations s \<and> maxMutations s \<le> mutationCount s)"

text \<open>\<open>onLastMutation\<close> has been called at most once, and not at all before the count
  has reached a positive limit; it has been called once if the count has reached a
  positive limit, and not at all otherwise.\<close>

definition fired_at_most :: "lv \<Rightarrow> bool" where
  "fired_at_most s = (onLastMutation_calls s \<le> (if reached s then 1 else 0))"

definition last_fired :: "lv \<Rightarrow> bool" where
  "last_fired s = (onLastMutation_calls s = (if reached s then 1 else 0))"


subsection \<open>Single admission decisions\<close>

text \<open>An attempt that is one admission decision and nothing else: a top-level write of
  a value that is not an object (no wrapping takes place, so no fuel is needed), or one
  report of a structural edit to \<open>#handleDeepMutation\<close>. \<open>perform_all\<close> makes the
  attempts one after the other, the caller catching an exception and going on, and
  returns how each attempt ended.\<close>

datatype attempt = Shallow jsval | Deep "key list" jsval jsval mtype

definition plain :: "jsval \<Rightarrow> bool" where
  "plain v = (case v of Ref a \<Rightarrow> False | _ \<Rightarrow> True)"

definition plain_attempt :: "attempt \<Rightarrow> bool" where
  "plain_attempt a = (case a of Shallow v \<Rightarrow> plain v | Deep p nv ov mt \<Rightarrow> True)"

definition perform :: "attempt \<Rightarrow> unit comp" where
  "perform a =
     (case a of Shallow v \<Rightarrow> set_value 0 v
      | Deep p nv ov mt \<Rightarrow> lift (handleDeepMutation p nv ov mt))"

fun perform_all :: "attempt list \<Rightarrow> lv \<Rightarrow> (unit outcome list \<times> lv) option" where
  "perform_all [] s = Some ([], s)"
| "perform_all (a # as) s =
     (case perform a s of
        None \<Rightarrow> None
      | Some (r, s') \<Rightarrow>
          (case perform_all as s' of None \<Rightarrow> None | Some (rs, t) \<Rightarrow> Some (r # rs, t)))"

subsection \<open>Programs used as concrete inputs\<close>

text \<open>\<open>after r m\<close> continues a program that has returned normally. The next three are
  \<open>v.value.push(x)\<close>, \<open>v.value[k] = x\<close> and \<open>v.value[i][k] = x\<close>.\<close>

definition after :: "(unit outcome \<times> lv) option \<Rightarrow> unit comp \<Rightarrow> (unit outcome \<times> lv) option" where
  "after r m = (case r of Some (Returned u, s) \<Rightarrow> m s | _ \<Rightarrow> r)"

definition value_push :: "nat \<Rightarrow> jsval \<Rightarrow> unit comp" where
  "value_push n x =
     andThen (lift get_value) (\<lambda>v. js_call n (addr_of v) Push [x] (\<lambda>xs. xs @ [x]))"

definition value_assign :: "nat \<Rightarrow> key \<Rightarrow> jsval \<Rightarrow> unit comp" where
  "value_assign n k x = andThen (lift get_value) (\<lambda>v. js_set n (addr_of v) k x)"

definition value_elem_assign :: "nat \<Rightarrow> nat \<Rightarrow> key \<Rightarrow> jsval \<Rightarrow> unit comp" where
  "value_elem_assign n i k x =
     andThen (lift get_value) (\<lambda>v.
     andThen (gets (\<lambda>s. js_get (heap s) (addr_of v) (KIdx i))) (\<lambda>e.
     js_set n (addr_of e) k x))"

text \<open>\<open>v.value.k1...kn\<close>, then \<open>f\<close> on the object found; \<open>v.value.k1...kn.k = x\<close>;
  \<open>v.value.k1...kn.push(x)\<close>.\<close>

definition value_at :: "key list \<Rightarrow> (addr \<Rightarrow> unit comp) \<Rightarrow> unit comp" where
  "value_at ks f =
     andThen (lift get_value) (\<lambda>v.
     andThen (gets (\<lambda>s. foldl (\<lambda>x k. js_get (heap s) (addr_of x) k) v ks)) (\<lambda>ob.
     f (addr_of ob)))"

definition assign_at :: "nat \<Rightarrow> key list \<Rightarrow> key \<Rightarrow> jsval \<Rightarrow> unit comp" where
  "assign_at n ks k x = value_at ks (\<lambda>a. js_set n a k x)"

definition push_at :: "nat \<Rightarrow> key list \<Rightarrow> jsval \<Rightarrow> unit comp" where
  "push_at n ks x = value_at ks (\<lambda>a. js_call n a Push [x] (\<lambda>xs. xs @ [x]))"

text \<open>\<open>v.value = v.value\<close>\<close>

definition value_rewrite :: "nat \<Rightarrow> unit comp" where
  "value_rewrite n = andThen (lift get_value) (\<lambda>v. set_value n v)"

definition do_freeze :: "unit comp" where
  "do_freeze = (\<lambda>s. Some (Returned (), freeze s))"

definition is_thrown :: "'a outcome \<Rightarrow> bool" where
  "is_thrown r = (case r of Thrown e \<Rightarrow> True | Returned x \<Rightarrow> False)"

definition threw :: "(unit outcome \<times> lv) option \<Rightarrow> bool" where
  "threw r = (case r of Some (Thrown e, s) \<Rightarrow> True | _ \<Rightarrow> False)"

definition returned :: "(unit outcome \<times> lv) option \<Rightarrow> bool" where
  "returned r = (case r of Some (Returned u, s) \<Rightarrow> True | _ \<Rightarrow> False)"

text \<open>\<open>limitedLet([{x: 1}], 3)\<close>\<close>

definition records_var :: "(unit outcome \<times> lv) option" where
  "records_var =
     new_LimitedVariable 10 (Ref 1) 3 default_options
       [PlainObject [(KStr ''x'', Num 1)], ArrayObject [Ref 0] []] 0 returning"

text \<open>\<open>limitedLet([{a: {}}], 5)\<close>\<close>

definition nested_var :: "(unit outcome \<times> lv) option" where
  "nested_var =
     new_LimitedVariable 10 (Ref 2) 5 default_options
       [PlainObject [], PlainObject [(KStr ''a'', Ref 0)], ArrayObject [Ref 1] []] 0 returning"

text \<open>\<open>limitedLet({x: 1}, 5, {strictMode: false})\<close> and \<open>limitedLet({x: 1}, 5)\<close>\<close>

definition tracking_var :: "(unit outcome \<times> lv) option" where
  "tracking_var =
     new_LimitedVariable 10 (Ref 0) 5 (default_options\<lparr>strictMode := False\<rparr>)
       [PlainObject [(KStr ''x'', Num 1)]] 0 returning"

definition object_var :: "(unit outcome \<times> lv) option" where
  "object_var =
     new_LimitedVariable 10 (Ref 0) 5 default_options [PlainObject [(KStr ''x'', Num 1)]] 0 returning"

text \<open>\<open>limitedLet('s', 1, {autoFreeze: false})\<close>, strict by default.\<close>

definition manual_var :: "(unit outcome \<times> lv) option" where
  "manual_var =
     new_LimitedVariable 0 (Str ''s'') 1 (default_options\<lparr>autoFreeze := False\<rparr>) [] 0 returning"



text \<open>\<open>limitedLet(0, 2, {trackHistory: false, allowReset: true})\<close> and
  \<open>limitedLet(0, 1, {allowReset: true, onViolation: f})\<close>\<close>

definition unlogged_var :: "(unit outcome \<times> lv) option" where
  "unlogged_var =
     new_LimitedVariable 0 (Num 0) 2
       (default_options\<lparr>trackHistory := False, allowReset := True\<rparr>) [] 0 returning"

definition watched_var :: "(unit outcome \<times> lv) option" where
  "watched_var =
     new_LimitedVariable 0 (Num 0) 1
       (default_options\<lparr>allowReset := True, onViolation := True\<rparr>) [] 0 returning"

text \<open>\<open>limitedLet(['a'], 3)\<close>\<close>

definition list_var :: "(unit outcome \<times> lv) option" where
  "list_var = new_LimitedVariable 10 (Ref 0) 3 default_options [ArrayObject [Str ''a''] []] 0 returning"

text \<open>\<open>limitedLet({a: {}, b: {}}, 1, {autoFreeze: false})\<close>\<close>

definition shared_var :: "(unit outcome \<times> lv) option" where
  "shared_var =
     new_LimitedVariable 10 (Ref 2) 1 (default_options\<lparr>autoFreeze := False\<rparr>)
       [PlainObject [], PlainObject [], PlainObject [(KStr ''a'', Ref 0), (KStr ''b'', Ref 1)]]
       0 returning"

text \<open>\<open>limitedLet(0, 1, {onMutate: () => { throw new Error('boom') }, onLastMutation: f})\<close>\<close>

definition onMutate_throws :: "event list \<Rightarrow> event \<Rightarrow> error option" where
  "onMutate_throws tr e =
     (case e of OnMutate x \<Rightarrow> Some (Error (Custom ''boom'')) | _ \<Rightarrow> None)"

definition noisy_var :: "(unit outcome \<times> lv) option" where
  "noisy_var =
     new_LimitedVariable 0 (Num 0) 1
       (default_options\<lparr>onMutate := True, onLastMutation := True\<rparr>) [] 0 onMutate_throws"

text \<open>The variables of two tests of the repository (deep-mutation-tracking.test.js):
  \<open>limitedLet({player: {name: 'Hero', stats: {hp: 100, mp: 50}},
                world: {level: 1, enemies: ['goblin']}}, 5)\<close>, and
  \<open>limitedLet({data: obj1}, 3)\<close> with \<open>obj1.ref = obj2\<close> and \<open>obj2.ref = obj1\<close>.\<close>

definition game_var :: "(unit outcome \<times> lv) option" where
  "game_var =
     new_LimitedVariable 10 (Ref 4) 5 default_options
       [PlainObject [(KStr ''hp'', Num 100), (KStr ''mp'', Num 50)],
        PlainObject [(KStr ''name'', Str ''Hero''), (KStr ''stats'', Ref 0)],
        ArrayObject [Str ''goblin''] [],
        PlainObject [(KStr ''level'', Num 1), (KStr ''enemies'', Ref 2)],
        PlainObject [(KStr ''player'', Ref 1), (KStr ''world'', Ref 3)]] 0 returning"

definition cyclic_var :: "(unit outcome \<times> lv) option" where
  "cyclic_var =
     new_LimitedVariable 10 (Ref 2) 3 default_options
       [PlainObject [(KStr ''name'', Str ''obj1''), (KStr ''ref'', Ref 1)],
        PlainObject [(KStr ''name'', Str ''obj2''), (KStr ''ref'', Ref 0)],
        PlainObject [(KStr ''data'', Ref 0)]] 0 returning"

text \<open>The state a program ends in; the blank record stands for a program that ran out
  of fuel.\<close>

definition blank :: lv where
  "blank =
     \<lparr>cur_value = Undefined, maxMutations = 0, mutationCount = 0, violationCount = 0,
      history = [], opts = default_options, frozen = False, violated = False,
      onViolationCalled = False, deepProxies = [], mutationPath = [], heap = [],
      copies = [], events = [], now = 0, raises = returning\<rparr>"

definition state_of :: "(unit outcome \<times> lv) option \<Rightarrow> lv" where
  "state_of r = (case r of Some (x, s') \<Rightarrow> s' | None \<Rightarrow> blank)"

section \<open>Lemmas\<close>

subsection \<open>The recursion equations of the interception layer\<close>

lemma layer_unfold:
  "createDeepProxy (Suc n) = createDeepProxy_body (createProxy n)"
  "createProxy (Suc n) = createProxy_body (wrapElements n) (wrapProperties n)"
  "wrapElements (Suc n) = wrapElements_body (createProxy n) (js_set n) (wrapElements n)"
  "wrapProperties (Suc n) = wrapProperties_body (createProxy n) (js_set n) (wrapProperties n)"
  "js_set (Suc n) = js_set_body (createDeepProxy n) (js_set n)"
  by (simp_all add: createDeepProxy_def createProxy_def wrapElements_def wrapProperties_def
        js_set_def split: prod.splits)

lemma layer_zero:
  "createDeepProxy 0 ob path s = None"
  "createProxy 0 pr t path s = None"
  "wrapElements 0 pr t path i s = None"
  "wrapProperties 0 pr t path ks s = None"
  "js_set 0 a k v s = None"
  by (simp_all add: createDeepProxy_def createProxy_def wrapElements_def wrapProperties_def
        js_set_def)

subsection \<open>Calls of callbacks, and the budget of \<open>onViolation\<close>\<close>

lemma snd_invoke [simp]: "snd (invoke e s) = emit e s"
  by (simp add: invoke_def split: option.splits)

lemma snd_call_if [simp]: "snd (call_if b e s) = (if b then emit e s else s)"
  by (simp add: call_if_def)

lemma snd_call_onViolation:
  "snd (call_onViolation err s) =
     (if onViolation (opts s) \<and> \<not> onViolationCalled s
      then emit (OnViolation err) (s\<lparr>onViolationCalled := True\<rparr>) else s)"
  by (simp add: call_onViolation_def)

lemma after_call_keeps:
  "F (snd r) = c \<Longrightarrow> (\<And>s. F (snd (f s)) = F s) \<Longrightarrow> F (snd (after_call r f)) = c"
  by (cases r) (simp add: after_call_def split: outcome.splits)

lemma vb_simps [simp]:
  "violation_budget (s\<lparr>violated := a\<rparr>) = violation_budget s"
  "violation_budget (s\<lparr>violationCount := b\<rparr>) = violation_budget s"
  "violation_budget (s\<lparr>mutationCount := c\<rparr>) = violation_budget s"
  "violation_budget (s\<lparr>mutationPath := d\<rparr>) = violation_budget s"
  "violation_budget (s\<lparr>cur_value := e\<rparr>) = violation_budget s"
  "violation_budget (s\<lparr>frozen := f\<rparr>) = violation_budget s"
  "violation_budget (s\<lparr>history := g\<rparr>) = violation_budget s"
  "violation_budget (s\<lparr>heap := h\<rparr>) = violation_budget s"
  "violation_budget (s\<lparr>deepProxies := i\<rparr>) = violation_budget s"
  "violation_budget (s\<lparr>copies := j\<rparr>) = violation_budget s"
  "violation_budget (s\<lparr>now := k\<rparr>) = violation_budget s"
  by (simp_all add: violation_budget_def onViolation_calls_def)

lemma vb_emit [simp]: "\<not> is_onViolation e \<Longrightarrow> violation_budget (emit e s) = violation_budget s"
  by (simp add: violation_budget_def onViolation_calls_def emit_def)

lemma vb_call_if [simp]:
  "\<not> is_onViolation e \<Longrightarrow> violation_budget (snd (call_if b e s)) = violation_budget s"
  by simp

lemma vb_call [simp]: "violation_budget (snd (call_onViolation err s)) = violation_budget s"
  by (simp add: violation_budget_def onViolation_calls_def emit_def snd_call_onViolation
        is_onViolation_def)

lemma vb_push [simp]: "violation_budget (push_history r s) = violation_budget s"
  by (simp add: push_history_def)

lemma vb_last [simp]: "violation_budget (snd (last_mutation_check v p m s)) = violation_budget s"
  unfolding last_mutation_check_def
  by (auto intro!: after_call_keeps [where F = violation_budget] simp: is_onViolation_def)

lemma vb_hdm: "violation_budget (snd (handleDeepMutation p nv ov mt s)) = violation_budget s"
  unfolding handleDeepMutation_def hdm_frozen_def hdm_exceeded_def hdm_admit_def Let_def
  by (auto intro!: after_call_keeps [where F = violation_budget] simp: is_onViolation_def)

lemma vb_set:
  "violation_budget (snd (set_frozen v s)) = violation_budget s"
  "violation_budget (snd (set_exceeded v s)) = violation_budget s"
  "violation_budget (snd (set_admit nv ov st s)) = violation_budget s"
  unfolding set_frozen_def set_exceeded_def set_admit_def Let_def
  by (auto intro!: after_call_keeps [where F = violation_budget] simp: is_onViolation_def)

subsection \<open>Frames\<close>

lemma keeps_calls:
  assumes "\<And>s x. F (s\<lparr>events := x\<rparr>) = F s" "\<And>s x. F (s\<lparr>onViolationCalled := x\<rparr>) = F s"
    "\<And>s x. F (s\<lparr>frozen := x\<rparr>) = F s"
  shows "F (emit e s) = F s" "F (snd (call_if b e s)) = F s"
    "F (snd (call_onViolation err s)) = F s"
    "F (snd (last_mutation_check v p m s)) = F s"
proof -
  show 1: "F (emit e s) = F s" for e s
    by (simp add: emit_def assms)
  show 2: "F (snd (call_if b e s)) = F s" for b e s
    by (simp add: 1)
  show "F (snd (call_onViolation err s)) = F s"
    by (simp add: snd_call_onViolation 1 assms)
  show "F (snd (last_mutation_check v p m s)) = F s"
    unfolding last_mutation_check_def
    by (auto intro!: after_call_keeps [where F = F] simp: 1 2 assms)
qed

lemmas vc_calls = keeps_calls [where F = violationCount, simplified]
lemmas mc_calls = keeps_calls [where F = mutationCount, simplified]
lemmas opts_calls = keeps_calls [where F = opts, simplified]
lemmas max_calls = keeps_calls [where F = maxMutations, simplified]
lemmas raises_calls = keeps_calls [where F = raises, simplified]

lemma push_history_fields [simp]:
  "violationCount (push_history r s) = violationCount s"
  "mutationCount (push_history r s) = mutationCount s"
  "opts (push_history r s) = opts s"
  "maxMutations (push_history r s) = maxMutations s"
  "raises (push_history r s) = raises s"
  "events (push_history r s) = events s"
  "frozen (push_history r s) = frozen s"
  "violated (push_history r s) = violated s"
  "cur_value (push_history r s) = cur_value s"
  "onViolationCalled (push_history r s) = onViolationCalled s"
  by (simp_all add: push_history_def)

lemma vc_hdm:
  "violationCount (snd (handleDeepMutation p nv ov mt s)) =
     (if \<not> frozen s \<and> maxMutations s \<le> mutationCount s then violationCount s + 1
      else violationCount s)"
  unfolding handleDeepMutation_def hdm_frozen_def hdm_exceeded_def hdm_admit_def Let_def
  by (auto intro!: after_call_keeps [where F = violationCount] simp: vc_calls)

lemma vc_set_frozen: "violationCount (snd (set_frozen v s)) = violationCount s"
  unfolding set_frozen_def Let_def
  by (auto intro!: after_call_keeps [where F = violationCount] simp: vc_calls)

lemma vc_set_exceeded: "violationCount (snd (set_exceeded v s)) = violationCount s + 1"
  unfolding set_exceeded_def Let_def
  by (auto intro!: after_call_keeps [where F = violationCount] simp: vc_calls)

lemma vc_set_admit: "violationCount (snd (set_admit nv ov st s)) = violationCount s"
  unfolding set_admit_def Let_def
  by (auto intro!: after_call_keeps [where F = violationCount] simp: vc_calls)

lemma mc_hdm:
  "mutationCount (snd (handleDeepMutation p nv ov mt s)) =
     (if \<not> frozen s \<and> mutationCount s < maxMutations s then Suc (mutationCount s)
      else mutationCount s)"
  unfolding handleDeepMutation_def hdm_frozen_def hdm_exceeded_def hdm_admit_def Let_def
  by (auto intro!: after_call_keeps [where F = mutationCount] simp: mc_calls)

lemma mc_set:
  "mutationCount (snd (set_frozen v s)) = mutationCount s"
  "mutationCount (snd (set_exceeded v s)) = mutationCount s"
  "mutationCount (snd (set_admit nv ov st s)) = Suc (mutationCount s)"
  unfolding set_frozen_def set_exceeded_def set_admit_def Let_def
  by (auto intro!: after_call_keeps [where F = mutationCount] simp: mc_calls)

lemma config_hdm:
  "opts (snd (handleDeepMutation p nv ov mt s)) = opts s"
  "maxMutations (snd (handleDeepMutation p nv ov mt s)) = maxMutations s"
  "raises (snd (handleDeepMutation p nv ov mt s)) = raises s"
  unfolding handleDeepMutation_def hdm_frozen_def hdm_exceeded_def hdm_admit_def Let_def
  by (auto intro!: after_call_keeps [where F = opts] after_call_keeps [where F = maxMutations]
        after_call_keeps [where F = raises] simp: opts_calls max_calls raises_calls)

lemma config_set:
  "opts (snd (set_frozen v s)) = opts s"
  "maxMutations (snd (set_frozen v s)) = maxMutations s"
  "raises (snd (set_frozen v s)) = raises s"
  "opts (snd (set_exceeded v s)) = opts s"
  "maxMutations (snd (set_exceeded v s)) = maxMutations s"
  "raises (snd (set_exceeded v s)) = raises s"
  "opts (snd (set_admit nv ov st s)) = opts s"
  "maxMutations (snd (set_admit nv ov st s)) = maxMutations s"
  "raises (snd (set_admit nv ov st s)) = raises s"
  unfolding set_frozen_def set_exceeded_def set_admit_def Let_def
  by (auto intro!: after_call_keeps [where F = opts] after_call_keeps [where F = maxMutations]
        after_call_keeps [where F = raises] simp: opts_calls max_calls raises_calls)

lemma gstep_config:
  "gstep s s' \<Longrightarrow> opts s' = opts s \<and> maxMutations s' = maxMutations s \<and> raises s' = raises s"
  by (induction rule: gstep.induct) (simp_all add: config_hdm config_set freeze_def)

subsection \<open>Exceptions\<close>

lemma is_thrown_simps [simp]: "is_thrown (Thrown e)" "\<not> is_thrown (Returned x)"
  by (simp_all add: is_thrown_def)

lemma after_call_snd:
  "snd (after_call r f) = (if is_thrown (fst r) then snd r else snd (f (snd r)))"
  by (cases r; cases "fst r") (simp_all add: after_call_def)

lemma after_call_fst:
  "is_thrown (fst (after_call r f)) = (is_thrown (fst r) \<or> is_thrown (fst (f (snd r))))"
  by (cases r; cases "fst r") (simp_all add: after_call_def)

lemma thrown_invoke: "is_thrown (fst (invoke e s)) = (raises s (events s) e \<noteq> None)"
  by (simp add: invoke_def split: option.splits)

lemma thrown_call_if:
  "is_thrown (fst (call_if b e s)) = (b \<and> raises s (events s) e \<noteq> None)"
  by (simp add: call_if_def thrown_invoke)

lemma thrown_hdm:
  "strictMode (opts s) \<Longrightarrow> frozen s \<or> maxMutations s \<le> mutationCount s \<Longrightarrow>
   is_thrown (fst (handleDeepMutation p nv ov mt s))"
  by (auto simp add: handleDeepMutation_def hdm_frozen_def hdm_exceeded_def Let_def
        after_call_fst opts_calls)

lemma thrown_set:
  "strictMode (opts s) \<Longrightarrow> is_thrown (fst (set_frozen v s))"
  "strictMode (opts s) \<Longrightarrow> is_thrown (fst (set_exceeded v s))"
  by (auto simp add: set_frozen_def set_exceeded_def Let_def after_call_fst opts_calls)

subsection \<open>The calls of \<open>onLastMutation\<close>\<close>

lemma calls_fields [simp]:
  "onLastMutation_calls (s\<lparr>violated := a\<rparr>) = onLastMutation_calls s"
  "onLastMutation_calls (s\<lparr>violationCount := b\<rparr>) = onLastMutation_calls s"
  "onLastMutation_calls (s\<lparr>mutationCount := c\<rparr>) = onLastMutation_calls s"
  "onLastMutation_calls (s\<lparr>mutationPath := d\<rparr>) = onLastMutation_calls s"
  "onLastMutation_calls (s\<lparr>cur_value := x\<rparr>) = onLastMutation_calls s"
  "onLastMutation_calls (s\<lparr>frozen := f\<rparr>) = onLastMutation_calls s"
  "onLastMutation_calls (s\<lparr>history := g\<rparr>) = onLastMutation_calls s"
  "onLastMutation_calls (s\<lparr>heap := h\<rparr>) = onLastMutation_calls s"
  "onLastMutation_calls (s\<lparr>deepProxies := i\<rparr>) = onLastMutation_calls s"
  "onLastMutation_calls (s\<lparr>copies := j\<rparr>) = onLastMutation_calls s"
  "onLastMutation_calls (s\<lparr>now := k\<rparr>) = onLastMutation_calls s"
  "onLastMutation_calls (s\<lparr>onViolationCalled := l\<rparr>) = onLastMutation_calls s"
  "onLastMutation_calls (push_history r s) = onLastMutation_calls s"
  by (simp_all add: onLastMutation_calls_def push_history_def)

lemma calls_emit [simp]:
  "onLastMutation_calls (emit e s) =
     onLastMutation_calls s + (if is_onLastMutation e then 1 else 0)"
  by (simp add: onLastMutation_calls_def emit_def)

lemma calls_call_onViolation [simp]:
  "onLastMutation_calls (snd (call_onViolation err s)) = onLastMutation_calls s"
  by (simp add: snd_call_onViolation is_onLastMutation_def)






subsection \<open>Every computation of the class is a sequence of its steps\<close>

lemma pres_ret: "pres (ret x)"
  by (simp add: pres_def ret_def)
lemma pres_throw: "pres (throw e)"
  by (simp add: pres_def throw_def)
lemma pres_gets: "pres (gets f)"
  by (simp add: pres_def gets_def)
lemma pres_none: "pres (\<lambda>s. None)"
  by (simp add: pres_def)

lemma pres_andThen: "pres m \<Longrightarrow> (\<And>x. pres (f x)) \<Longrightarrow> pres (andThen m f)"
  unfolding pres_def andThen_def
  by (fastforce split: option.splits outcome.splits prod.splits elim: rtranclp_trans)

lemma env_step: "gstep\<^sup>*\<^sup>* s (s\<lparr>heap := h\<rparr>)"
proof -
  have "gstep s (s\<lparr>deepProxies := deepProxies s, heap := h, copies := copies s, now := now s\<rparr>)"
    by (rule g_env)
  then show ?thesis by simp
qed

lemma env_step2: "gstep\<^sup>*\<^sup>* s (s\<lparr>deepProxies := d\<rparr>)"
proof -
  have "gstep s (s\<lparr>deepProxies := d, heap := heap s, copies := copies s, now := now s\<rparr>)"
    by (rule g_env)
  then show ?thesis by simp
qed

lemma pres_set_heap: "pres (set_heap h)"
  by (simp add: pres_def set_heap_def env_step)

lemma pres_alloc: "pres (alloc ob)"
  by (auto simp add: pres_def alloc_def env_step)

lemma pres_deepProxies_set: "pres (deepProxies_set ob p)"
  by (auto simp add: pres_def deepProxies_set_def env_step2)

lemma pres_hdm: "pres (lift (handleDeepMutation p nv ov mt))"
  unfolding pres_def lift_def by (metis g_deep r_into_rtranclp snd_conv option.inject)

lemmas pres_basic = pres_ret pres_throw pres_gets pres_none pres_set_heap pres_alloc
  pres_deepProxies_set pres_hdm

lemma pres_createObjectProxy: "pres (createObjectProxy ob path)"
  unfolding createObjectProxy_def by (intro pres_andThen pres_basic)

lemma pres_createArrayProxy: "pres (createArrayProxy ob path)"
  unfolding createArrayProxy_def by (intro pres_andThen pres_basic)

lemma pres_layer:
  "(\<forall>ob path. pres (createDeepProxy n ob path)) \<and>
   (\<forall>pr t path. pres (createProxy n pr t path)) \<and>
   (\<forall>pr t path i. pres (wrapElements n pr t path i)) \<and>
   (\<forall>pr t path ks. pres (wrapProperties n pr t path ks)) \<and>
   (\<forall>a k v. pres (js_set n a k v))"
proof (induction n)
  case 0
  show ?case by (simp add: pres_def layer_zero)
next
  case (Suc n)
  have 1: "pres (createDeepProxy (Suc n) ob path)" for ob path
    unfolding layer_unfold createDeepProxy_body_def using Suc
    by (auto intro!: pres_andThen pres_basic split: option.splits prod.splits)
  have 2: "pres (createProxy (Suc n) pr t path)" for pr t path
    unfolding layer_unfold createProxy_body_def using Suc
    by (auto intro!: pres_andThen pres_basic pres_createObjectProxy pres_createArrayProxy split: option.splits prod.splits)
  have 3: "pres (wrapElements (Suc n) pr t path i)" for pr t path i
    unfolding layer_unfold wrapElements_body_def using Suc
    by (auto intro!: pres_andThen pres_basic simp: Let_def split: option.splits prod.splits)
  have 4: "pres (wrapProperties (Suc n) pr t path ks)" for pr t path ks
    unfolding layer_unfold wrapProperties_body_def using Suc
    by (auto intro!: pres_andThen pres_basic simp: Let_def split: option.splits prod.splits list.splits)
  have 5: "pres (js_set (Suc n) a k v)" for a k v
    unfolding layer_unfold js_set_body_def using Suc
    by (auto intro!: pres_andThen pres_basic simp: Let_def split: option.splits prod.splits list.splits hobj.splits)
  from 1 2 3 4 5 show ?case by blast
qed

lemma pres_rewrap: "pres (rewrapArrayElements n arr path i)"
proof (induction n arbitrary: arr path i)
  case 0
  show ?case by (simp add: pres_def)
next
  case (Suc n)
  show ?case using Suc pres_layer [of n]
    by (auto intro!: pres_andThen pres_basic simp: Let_def)
qed

lemma pres_js_call: "pres (js_call n a m args eff)"
proof (induction n arbitrary: a)
  case 0
  show ?case by (simp add: pres_def)
next
  case (Suc n)
  show ?case using Suc
    by (auto intro!: pres_andThen pres_basic pres_rewrap split: option.splits hobj.splits handler.splits)
qed

lemma pres_js_delete: "pres (js_delete n a k)"
proof (induction n arbitrary: a)
  case 0
  show ?case by (simp add: pres_def)
next
  case (Suc n)
  show ?case using Suc
    by (auto intro!: pres_andThen pres_basic split: option.splits hobj.splits handler.splits)
qed

lemma pres_lift: "(\<And>s. gstep\<^sup>*\<^sup>* s (snd (f s))) \<Longrightarrow> pres (lift f)"
  unfolding pres_def lift_def by (metis snd_conv option.inject)

lemma pres_wrap_value: "pres (wrap_value n v)"
  using pres_layer [of n] pres_ret [of v] by (auto simp add: pres_def wrap_value_def)

lemma pres_set_value: "pres (set_value n v)"
proof -
  have a: "pres (andThen (wrap_value n v) (\<lambda>stored. lift (set_admit v ov stored)))" for ov
    by (auto intro!: pres_andThen pres_wrap_value pres_lift g_set_admit r_into_rtranclp)
  show ?thesis
    unfolding pres_def
  proof (intro allI impI)
    fix s r s'
    assume h: "set_value n v s = Some (r, s')"
    show "gstep\<^sup>*\<^sup>* s s'"
    proof (cases "frozen s")
      case True
      with h have "s' = snd (set_frozen v s)" by (auto simp: set_value_def)
      with True show ?thesis by (auto intro: g_set_frozen)
    next
      case False
      show ?thesis
      proof (cases "maxMutations s \<le> mutationCount s")
        case True
        with h False have "s' = snd (set_exceeded v s)" by (auto simp: set_value_def)
        with True False show ?thesis by (auto intro: g_set_exceeded)
      next
        case nex: False
        with h False a [of "cur_value s"] show ?thesis
          by (simp add: set_value_def pres_def Let_def)
      qed
    qed
  qed
qed

lemma get_value_state: "snd (get_value s) = s"
  by (simp add: get_value_def)

lemma pres_exec: "\<not> is_reset ope \<Longrightarrow> pres (exec n ope)"
proof (cases ope)
  case (Write v) then show ?thesis by (simp add: exec_def pres_set_value)
next
  case Read then show ?thesis
    by (auto simp: exec_def get_value_state intro!: pres_andThen pres_lift pres_basic)
next
  case (Assign a k v) then show ?thesis using pres_layer [of n] by (simp add: exec_def)
next
  case (Remove a k) then show ?thesis by (simp add: exec_def pres_js_delete)
next
  case (Invoke a m args eff) then show ?thesis by (simp add: exec_def pres_js_call)
next
  case Freeze then show ?thesis by (auto simp: exec_def pres_def intro: g_freeze)
next
  case ResetVar
  assume "\<not> is_reset ope"
  with ResetVar show ?thesis by (simp add: is_reset_def)
next
  case ReadHistory
  have "gstep s (s\<lparr>deepProxies := deepProxies s, heap := heap s, copies := c, now := now s\<rparr>)" for s c
    by (rule g_env)
  then have "gstep\<^sup>*\<^sup>* s (snd (get_history s))" for s
    by (auto simp: get_history_def)
  with ReadHistory show ?thesis
    by (auto simp: exec_def intro!: pres_andThen pres_lift pres_basic)
next
  case (Caller f) then show ?thesis by (auto simp: exec_def pres_def env_step)
qed

subsection \<open>Invariants of the steps\<close>

lemma gstep_budget: "gstep s s' \<Longrightarrow> violation_budget s' = violation_budget s"
  by (induction rule: gstep.induct) (simp_all add: vb_hdm vb_set freeze_def)



lemma fam_fields [simp]:
  "fired_at_most (s\<lparr>frozen := f\<rparr>) = fired_at_most s"
  "fired_at_most (s\<lparr>deepProxies := d, heap := h, copies := c, now := t\<rparr>) = fired_at_most s"
  "fired_at_most (s\<lparr>cur_value := x\<rparr>) = fired_at_most s"
  "fired_at_most (push_history r s) = fired_at_most s"
  by (simp_all add: fired_at_most_def reached_def)




lemma lf_fields [simp]:
  "last_fired (s\<lparr>frozen := f\<rparr>) = last_fired s"
  "last_fired (s\<lparr>deepProxies := d, heap := h, copies := c, now := t\<rparr>) = last_fired s"
  "last_fired (s\<lparr>cur_value := x\<rparr>) = last_fired s"
  "last_fired (push_history r s) = last_fired s"
  by (simp_all add: last_fired_def reached_def)



subsection \<open>Runs\<close>

lemma rtrancl_config:
  "gstep\<^sup>*\<^sup>* s s' \<Longrightarrow>
   opts s' = opts s \<and> maxMutations s' = maxMutations s \<and> raises s' = raises s"
  by (induction rule: rtranclp_induct) (simp_all add: gstep_config)

lemma rtrancl_budget: "gstep\<^sup>*\<^sup>* s s' \<Longrightarrow> violation_budget s' = violation_budget s"
  by (induction rule: rtranclp_induct) (simp_all add: gstep_budget)





lemma reset_budget: "violation_budget (snd (reset s)) \<le> violation_budget s + 1"
  by (simp add: reset_def violation_budget_def onViolation_calls_def push_history_def Let_def)

lemma exec_reset: "is_reset ope \<Longrightarrow> exec n ope s = Some (reset s)"
  by (cases ope) (simp_all add: is_reset_def exec_def lift_def)

lemma exec_steps: "\<not> is_reset ope \<Longrightarrow> exec n ope s = Some (r, s') \<Longrightarrow> gstep\<^sup>*\<^sup>* s s'"
  using pres_exec [of ope n] by (auto simp: pres_def)

lemma exec_budget:
  "exec n ope s = Some (r, s') \<Longrightarrow>
   violation_budget s' \<le> violation_budget s + (if is_reset ope then 1 else 0)"
proof (cases "is_reset ope")
  case True
  assume h: "exec n ope s = Some (r, s')"
  with True have "s' = snd (reset s)" by (simp add: exec_reset)
  with True reset_budget [of s] show ?thesis by simp
next
  case False
  assume h: "exec n ope s = Some (r, s')"
  from exec_steps [OF False h] False show ?thesis by (simp add: rtrancl_budget)
qed

lemma exec_opts: "exec n ope s = Some (r, s') \<Longrightarrow> opts s' = opts s"
proof (cases "is_reset ope")
  case True
  assume h: "exec n ope s = Some (r, s')"
  with True have "s' = snd (reset s)" by (simp add: exec_reset)
  then show ?thesis
    by (simp add: reset_def Let_def push_history_def)
next
  case False
  assume h: "exec n ope s = Some (r, s')"
  from exec_steps [OF False h] show ?thesis by (simp add: rtrancl_config)
qed

lemma exec_budget_allowed:
  "exec n ope s = Some (r, s') \<Longrightarrow>
   violation_budget s' \<le>
     violation_budget s + (if is_reset ope \<and> allowReset (opts s) then 1 else 0)"
proof (cases "is_reset ope \<and> \<not> allowReset (opts s)")
  case True
  assume h: "exec n ope s = Some (r, s')"
  with True have "s' = s"
    by (simp add: exec_reset reset_def)
  with True show ?thesis
    by simp
next
  case False
  assume h: "exec n ope s = Some (r, s')"
  from exec_budget [OF h] False show ?thesis
    by auto
qed

lemma run_budget_allowed:
  "run n ops s = Some s' \<Longrightarrow>
   violation_budget s' \<le>
     violation_budget s + (if allowReset (opts s) then length (filter is_reset ops) else 0)"
proof (induction ops arbitrary: s)
  case Nil
  then show ?case
    by simp
next
  case (Cons ope ops)
  from Cons.prems obtain r t where e: "exec n ope s = Some (r, t)" and r: "run n ops t = Some s'"
    by (auto split: option.splits)
  from Cons.IH [OF r] exec_budget_allowed [OF e] exec_opts [OF e] show ?case
    by (auto split: if_splits)
qed

subsection \<open>The count of violations along the steps\<close>

lemma gstep_violationCount:
  "gstep s t \<Longrightarrow>
   violationCount t = violationCount s \<or>
   \<not> frozen s \<and> maxMutations s \<le> mutationCount s \<and> violationCount t = violationCount s + 1"
  by (induction rule: gstep.induct)
     (simp_all add: vc_hdm vc_set_frozen vc_set_exceeded vc_set_admit freeze_def)

lemma rtrancl_violationCount: "gstep\<^sup>*\<^sup>* s t \<Longrightarrow> violationCount s \<le> violationCount t"
proof (induction rule: rtranclp_induct)
  case base
  show ?case by simp
next
  case (step y z)
  from gstep_violationCount [OF step.hyps(2)] step.IH show ?case by auto
qed

subsection \<open>The setter, block by block\<close>

lemma plain_not_container: "plain v \<Longrightarrow> \<not> isObjectOrArray h v"
  by (cases v) (simp_all add: plain_def isObjectOrArray_def)

lemma wrap_value_plain:
  "\<not> (trackDeepMutations (opts s) \<and> isObjectOrArray (heap s) v) \<Longrightarrow>
   wrap_value n v s = Some (Returned v, s)"
  by (auto simp add: wrap_value_def ret_def)

lemma set_value_atomic:
  "frozen s \<Longrightarrow> set_value n v s = Some (set_frozen v s)"
  "\<not> frozen s \<Longrightarrow> maxMutations s \<le> mutationCount s \<Longrightarrow> set_value n v s = Some (set_exceeded v s)"
  "\<not> frozen s \<Longrightarrow> \<not> maxMutations s \<le> mutationCount s \<Longrightarrow>
   \<not> (trackDeepMutations (opts s) \<and> isObjectOrArray (heap s) v) \<Longrightarrow>
   set_value n v s = Some (set_admit v (cur_value s) v s)"
  by (auto simp add: set_value_def Let_def andThen_def wrap_value_plain lift_def)

lemma set_value_wrapped:
  assumes "set_value n v s = Some (r, s')" "\<not> frozen s" "mutationCount s < maxMutations s"
  shows "(\<exists>e. wrap_value n v s = Some (Thrown e, s') \<and> r = Thrown e) \<or>
         (\<exists>st u. wrap_value n v s = Some (Returned st, u) \<and>
            set_admit v (cur_value s) st u = (r, s'))"
  using assms
  by (auto simp add: set_value_def Let_def andThen_def lift_def
        split: option.splits outcome.splits prod.splits)

lemma set_value_violationCount:
  assumes "set_value n v s = Some (r, s')" "\<not> frozen s" "mutationCount s < maxMutations s"
  shows "\<exists>w u. wrap_value n v s = Some (w, u) \<and> gstep\<^sup>*\<^sup>* s u \<and>
           violationCount s' = violationCount u"
proof -
  from set_value_wrapped [OF assms] consider
      (thrown) e where "wrap_value n v s = Some (Thrown e, s')"
    | (stored) st u where "wrap_value n v s = Some (Returned st, u)"
        "set_admit v (cur_value s) st u = (r, s')"
    by blast
  then show ?thesis
  proof cases
    case thrown
    with pres_wrap_value [of n v] have "gstep\<^sup>*\<^sup>* s s'"
      by (auto simp: pres_def)
    with thrown show ?thesis
      by blast
  next
    case stored
    with pres_wrap_value [of n v] have "gstep\<^sup>*\<^sup>* s u"
      by (auto simp: pres_def)
    moreover from stored(2) vc_set_admit [of v "cur_value s" st u]
    have "violationCount s' = violationCount u"
      by simp
    ultimately show ?thesis
      using stored(1) by blast
  qed
qed

subsection \<open>A write while frozen\<close>

lemma frozen_hdm:
  "frozen s \<Longrightarrow>
   (snd (handleDeepMutation p nv ov mt s))
     \<lparr>violated := violated s, onViolationCalled := onViolationCalled s,
      mutationPath := mutationPath s, events := events s\<rparr> = s \<and>
   mutationPath (snd (handleDeepMutation p nv ov mt s)) = p \<and>
   violated (snd (handleDeepMutation p nv ov mt s)) \<and>
   (events (snd (handleDeepMutation p nv ov mt s)) = events s \<or>
    (\<exists>e. events (snd (handleDeepMutation p nv ov mt s)) = events s @ [OnViolation e])) \<and>
   (is_thrown (fst (handleDeepMutation p nv ov mt s)) \<longleftrightarrow>
      strictMode (opts s) \<or>
      (\<exists>e. events (snd (handleDeepMutation p nv ov mt s)) = events s @ [OnViolation e] \<and>
           raises s (events s) (OnViolation e) \<noteq> None))"
  by (simp add: handleDeepMutation_def hdm_frozen_def Let_def call_onViolation_def emit_def
        after_call_snd after_call_fst thrown_invoke)

lemma frozen_set:
  "(snd (set_frozen v s))
     \<lparr>violated := violated s, onViolationCalled := onViolationCalled s, events := events s\<rparr> = s \<and>
   violated (snd (set_frozen v s)) \<and>
   (events (snd (set_frozen v s)) = events s \<or>
    (\<exists>e. events (snd (set_frozen v s)) = events s @ [OnViolation e])) \<and>
   (is_thrown (fst (set_frozen v s)) \<longleftrightarrow>
      strictMode (opts s) \<or>
      (\<exists>e. events (snd (set_frozen v s)) = events s @ [OnViolation e] \<and>
           raises s (events s) (OnViolation e) \<noteq> None))"
  by (simp add: set_frozen_def Let_def call_onViolation_def emit_def
        after_call_snd after_call_fst thrown_invoke)

lemma restored_fields:
  "s'\<lparr>violated := a, onViolationCalled := b, mutationPath := c, events := d\<rparr> = s \<Longrightarrow>
   mutationCount s' = mutationCount s \<and> violationCount s' = violationCount s \<and>
   history s' = history s \<and> cur_value s' = cur_value s \<and> frozen s' = frozen s \<and>
   heap s' = heap s"
  by (cases s', cases s) simp

subsection \<open>Single admission decisions\<close>

lemmas violated_calls = keeps_calls [where F = violated, simplified]

lemma frozen_last_check:
  "frozen (snd (last_mutation_check v p m s)) \<Longrightarrow> frozen s \<or> mutationCount s = maxMutations s"
  by (auto simp add: last_mutation_check_def after_call_snd emit_def split: if_splits)

lemma thrown_last_check:
  "raises s = returning \<Longrightarrow> \<not> is_thrown (fst (last_mutation_check v p m s))"
  by (simp add: last_mutation_check_def after_call_fst thrown_call_if returning_def)

lemma hdm_admit_fields:
  "violated (snd (hdm_admit p nv ov mt s)) = violated s"
  "frozen (snd (hdm_admit p nv ov mt s)) \<Longrightarrow> frozen s \<or> Suc (mutationCount s) = maxMutations s"
  "raises s = returning \<Longrightarrow> \<not> is_thrown (fst (hdm_admit p nv ov mt s))"
proof -
  show "violated (snd (hdm_admit p nv ov mt s)) = violated s"
    unfolding hdm_admit_def Let_def
    by (auto intro!: after_call_keeps [where F = violated] simp: violated_calls)
  show "frozen (snd (hdm_admit p nv ov mt s)) \<Longrightarrow> frozen s \<or> Suc (mutationCount s) = maxMutations s"
    by (auto simp add: hdm_admit_def Let_def after_call_snd emit_def mc_calls max_calls
          dest!: frozen_last_check split: if_splits)
  show "raises s = returning \<Longrightarrow> \<not> is_thrown (fst (hdm_admit p nv ov mt s))"
    by (simp add: hdm_admit_def Let_def after_call_fst thrown_call_if thrown_last_check
          raises_calls returning_def)
qed

lemma set_admit_fields:
  "violated (snd (set_admit nv ov st s)) = violated s"
  "frozen (snd (set_admit nv ov st s)) \<Longrightarrow> frozen s \<or> Suc (mutationCount s) = maxMutations s"
  "raises s = returning \<Longrightarrow> \<not> is_thrown (fst (set_admit nv ov st s))"
proof -
  show "violated (snd (set_admit nv ov st s)) = violated s"
    unfolding set_admit_def Let_def
    by (auto intro!: after_call_keeps [where F = violated] simp: violated_calls)
  show "frozen (snd (set_admit nv ov st s)) \<Longrightarrow> frozen s \<or> Suc (mutationCount s) = maxMutations s"
    by (auto simp add: set_admit_def Let_def after_call_snd emit_def mc_calls max_calls
          dest!: frozen_last_check split: if_splits)
  show "raises s = returning \<Longrightarrow> \<not> is_thrown (fst (set_admit nv ov st s))"
    by (simp add: set_admit_def Let_def after_call_fst thrown_call_if thrown_last_check
          raises_calls returning_def)
qed

lemma hdm_not_frozen:
  "\<not> frozen s \<Longrightarrow> mutationCount s < maxMutations s \<Longrightarrow>
   handleDeepMutation p nv ov mt s = hdm_admit p nv ov mt (s\<lparr>mutationPath := p\<rparr>)"
  by (simp add: handleDeepMutation_def Let_def)

lemma hdm_admitted:
  assumes "\<not> frozen s" "mutationCount s < maxMutations s"
  shows "\<exists>r s'. handleDeepMutation p nv ov mt s = (r, s') \<and>
           mutationCount s' = Suc (mutationCount s) \<and> violationCount s' = violationCount s \<and>
           violated s' = violated s \<and> maxMutations s' = maxMutations s \<and>
           opts s' = opts s \<and> raises s' = raises s \<and>
           (frozen s' \<longrightarrow> mutationCount s' = maxMutations s') \<and>
           (raises s = returning \<longrightarrow> \<not> is_thrown r)"
proof -
  obtain r s' where e: "handleDeepMutation p nv ov mt s = (r, s')"
    by (cases "handleDeepMutation p nv ov mt s")
  from e assms mc_hdm [where p = p and nv = nv and ov = ov and mt = mt and s = s]
    vc_hdm [where p = p and nv = nv and ov = ov and mt = mt and s = s]
    config_hdm [where p = p and nv = nv and ov = ov and mt = mt and s = s]
  have 1: "mutationCount s' = Suc (mutationCount s)" "violationCount s' = violationCount s"
    "maxMutations s' = maxMutations s" "opts s' = opts s" "raises s' = raises s"
    by simp_all
  from e assms
    hdm_admit_fields [where p = p and nv = nv and ov = ov and mt = mt
      and s = "s\<lparr>mutationPath := p\<rparr>"]
  have 2: "violated s' = violated s" "frozen s' \<longrightarrow> Suc (mutationCount s) = maxMutations s"
    "raises s = returning \<longrightarrow> \<not> is_thrown r"
    by (auto simp add: hdm_not_frozen)
  from e 1 2 show ?thesis
    by simp
qed

lemma set_admitted:
  assumes "\<not> frozen s" "mutationCount s < maxMutations s" "plain v"
  shows "\<exists>r s'. set_value n v s = Some (r, s') \<and>
           mutationCount s' = Suc (mutationCount s) \<and> violationCount s' = violationCount s \<and>
           violated s' = violated s \<and> maxMutations s' = maxMutations s \<and>
           opts s' = opts s \<and> raises s' = raises s \<and>
           (frozen s' \<longrightarrow> mutationCount s' = maxMutations s') \<and>
           (raises s = returning \<longrightarrow> \<not> is_thrown r)"
proof -
  obtain r s' where e: "set_admit v (cur_value s) v s = (r, s')"
    by (cases "set_admit v (cur_value s) v s")
  from assms plain_not_container [of v "heap s"] e
  have "set_value n v s = Some (r, s')"
    by (simp add: set_value_atomic)
  moreover from e assms
    mc_set(3) [where nv = v and ov = "cur_value s" and st = v and s = s]
    vc_set_admit [where nv = v and ov = "cur_value s" and st = v and s = s]
    config_set(7-9) [where nv = v and ov = "cur_value s" and st = v and s = s]
    set_admit_fields [where nv = v and ov = "cur_value s" and st = v and s = s]
  have "mutationCount s' = Suc (mutationCount s) \<and> violationCount s' = violationCount s \<and>
           violated s' = violated s \<and> maxMutations s' = maxMutations s \<and>
           opts s' = opts s \<and> raises s' = raises s \<and>
           (frozen s' \<longrightarrow> mutationCount s' = maxMutations s') \<and>
           (raises s = returning \<longrightarrow> \<not> is_thrown r)"
    by auto
  ultimately show ?thesis
    by blast
qed

lemma perform_admitted:
  assumes "\<not> frozen s" "mutationCount s < maxMutations s" "plain_attempt a"
  shows "\<exists>r s'. perform a s = Some (r, s') \<and>
           mutationCount s' = Suc (mutationCount s) \<and> violationCount s' = violationCount s \<and>
           violated s' = violated s \<and> maxMutations s' = maxMutations s \<and>
           opts s' = opts s \<and> raises s' = raises s \<and>
           (frozen s' \<longrightarrow> mutationCount s' = maxMutations s') \<and>
           (raises s = returning \<longrightarrow> \<not> is_thrown r)"
proof (cases a)
  case (Shallow v)
  with assms set_admitted [of s v 0] show ?thesis
    by (simp add: perform_def plain_attempt_def)
next
  case (Deep p nv ov mt)
  with assms hdm_admitted [of s p nv ov mt] show ?thesis
    by (simp add: perform_def lift_def)
qed

lemma perform_all_admitted:
  "\<not> frozen s \<or> as = [] \<Longrightarrow> mutationCount s + length as \<le> maxMutations s \<Longrightarrow>
   list_all plain_attempt as \<Longrightarrow>
   \<exists>rs t. perform_all as s = Some (rs, t) \<and> length rs = length as \<and>
       mutationCount t = mutationCount s + length as \<and> violationCount t = violationCount s \<and>
       violated t = violated s \<and> maxMutations t = maxMutations s \<and> opts t = opts s \<and>
       (raises s = returning \<longrightarrow> list_all (\<lambda>r. \<not> is_thrown r) rs)"
proof (induction as arbitrary: s)
  case Nil
  then show ?case
    by simp
next
  case (Cons a as)
  then have nf: "\<not> frozen s" and lt: "mutationCount s < maxMutations s" and pa: "plain_attempt a"
    by simp_all
  from perform_admitted [OF nf lt pa] obtain r s' where
    p: "perform a s = Some (r, s')" and
    c: "mutationCount s' = Suc (mutationCount s)" "violationCount s' = violationCount s"
       "violated s' = violated s" "maxMutations s' = maxMutations s" "opts s' = opts s"
       "raises s' = raises s" and
    f: "frozen s' \<longrightarrow> mutationCount s' = maxMutations s'" and
    q: "raises s = returning \<longrightarrow> \<not> is_thrown r"
    by blast
  have 1: "\<not> frozen s' \<or> as = []"
  proof (cases "frozen s'")
    case True
    with f have "mutationCount s' = maxMutations s'" by blast
    with c(1) c(4) Cons.prems(2) have "length as = 0" by (simp del: length_0_conv)
    then show ?thesis by simp
  next
    case False
    then show ?thesis by simp
  qed
  from c Cons.prems have 2: "mutationCount s' + length as \<le> maxMutations s'"
    and 3: "list_all plain_attempt as"
    by simp_all
  from Cons.IH [OF 1 2 3] p c q show ?case
    by auto
qed

text \<open>The admission policy by itself is exact: from a state that is not frozen, the
  decisions up to the limit all admit (\<open>perform_all_admitted\<close>), and a decision taken
  with the limit used up does not admit.\<close>

lemma violated_rejected:
  "frozen s \<or> maxMutations s \<le> mutationCount s \<Longrightarrow>
   violated (snd (handleDeepMutation p nv ov mt s))"
  "violated (snd (set_frozen v s))"
  "violated (snd (set_exceeded v s))"
  by (auto simp add: handleDeepMutation_def hdm_frozen_def hdm_exceeded_def set_frozen_def
        set_exceeded_def Let_def after_call_snd violated_calls push_history_def)

lemma attempt_after_depletion:
  assumes "maxMutations s \<le> mutationCount s"
  shows "\<exists>r s'. perform a s = Some (r, s') \<and> mutationCount s' = mutationCount s \<and>
           violated s' \<and> (strictMode (opts s) \<longrightarrow> is_thrown r) \<and>
           violationCount s' = (if frozen s then violationCount s else violationCount s + 1)"
proof (cases a)
  case (Shallow v)
  show ?thesis
  proof (cases "frozen s")
    case True
    with Shallow mc_set(1) [where v = v and s = s] violated_rejected(2) [where v = v and s = s]
      thrown_set(1) [where v = v and s = s] vc_set_frozen [where v = v and s = s]
    show ?thesis
      by (cases "set_frozen v s") (simp add: perform_def set_value_atomic)
  next
    case False
    with Shallow assms mc_set(2) [where v = v and s = s]
      violated_rejected(3) [where v = v and s = s] thrown_set(2) [where v = v and s = s]
      vc_set_exceeded [where v = v and s = s]
    show ?thesis
      by (cases "set_exceeded v s") (simp add: perform_def set_value_atomic)
  qed
next
  case (Deep p nv ov mt)
  with assms mc_hdm [where p = p and nv = nv and ov = ov and mt = mt and s = s]
    violated_rejected(1) [where p = p and nv = nv and ov = ov and mt = mt and s = s]
    thrown_hdm [where p = p and nv = nv and ov = ov and mt = mt and s = s]
    vc_hdm [where p = p and nv = nv and ov = ov and mt = mt and s = s]
  show ?thesis
    by (cases "handleDeepMutation p nv ov mt s") (auto simp add: perform_def lift_def)
qed

subsection \<open>The calls of \<open>onViolation\<close>\<close>

lemma ovc_fields [simp]:
  "onViolation_calls (s\<lparr>violated := a\<rparr>) = onViolation_calls s"
  "onViolation_calls (s\<lparr>violationCount := b\<rparr>) = onViolation_calls s"
  "onViolation_calls (s\<lparr>mutationCount := c\<rparr>) = onViolation_calls s"
  "onViolation_calls (s\<lparr>mutationPath := d\<rparr>) = onViolation_calls s"
  "onViolation_calls (s\<lparr>cur_value := x\<rparr>) = onViolation_calls s"
  "onViolation_calls (s\<lparr>frozen := f\<rparr>) = onViolation_calls s"
  "onViolation_calls (s\<lparr>onViolationCalled := l\<rparr>) = onViolation_calls s"
  "onViolation_calls (push_history r s) = onViolation_calls s"
  by (simp_all add: onViolation_calls_def push_history_def)

lemma ovc_emit [simp]:
  "onViolation_calls (emit e s) = onViolation_calls s + (if is_onViolation e then 1 else 0)"
  by (simp add: onViolation_calls_def emit_def)

lemma emit_fields [simp]:
  "onViolationCalled (emit e s) = onViolationCalled s"
  "opts (emit e s) = opts s"
  "strictMode (opts (emit e s)) = strictMode (opts s)"
  by (simp_all add: emit_def)

lemma ovc_call_onViolation:
  "onViolation_calls (snd (call_onViolation err s)) =
     onViolation_calls s + (if onViolation (opts s) \<and> \<not> onViolationCalled s then 1 else 0)"
  by (simp add: snd_call_onViolation is_onViolation_def)

lemma ovc_last_check [simp]:
  "onViolation_calls (snd (last_mutation_check v p m s)) = onViolation_calls s"
  by (simp add: last_mutation_check_def after_call_snd is_onViolation_def)

lemma ovc_hdm_frozen:
  "onViolation_calls (snd (hdm_frozen p nv ov mt s)) =
     onViolation_calls s + (if onViolation (opts s) \<and> \<not> onViolationCalled s then 1 else 0)"
  by (simp add: hdm_frozen_def Let_def after_call_snd ovc_call_onViolation)

lemma ovc_set_frozen:
  "onViolation_calls (snd (set_frozen v s)) =
     onViolation_calls s + (if onViolation (opts s) \<and> \<not> onViolationCalled s then 1 else 0)"
  by (simp add: set_frozen_def Let_def after_call_snd ovc_call_onViolation)

lemma ovc_hdm_exceeded:
  "onViolation_calls (snd (hdm_exceeded p nv ov mt s)) =
     onViolation_calls s +
       (if onViolation (opts s) \<and> \<not> onViolationCalled s \<and> strictMode (opts s) \<and>
           (onLimitExceeded (opts s) \<longrightarrow>
              raises s (events s)
                (OnLimitExceeded
                   \<lparr>a_attemptNumber = violationCount s + 1, a_attemptedValue = nv,
                    a_currentValue = ov, a_mutationCount = mutationCount s,
                    a_violationCount = violationCount s + 1, a_timestamp = now s,
                    a_totalAttempts = mutationCount s + (violationCount s + 1),
                    a_mutationPath = Some p, a_mutationType = Some mt\<rparr>) = None)
        then 1 else 0)"
  by (auto simp add: hdm_exceeded_def Let_def after_call_snd thrown_call_if ovc_call_onViolation
        is_onViolation_def)

lemma ovc_set_exceeded:
  "onViolation_calls (snd (set_exceeded v s)) =
     onViolation_calls s +
       (if onViolation (opts s) \<and> \<not> onViolationCalled s \<and> strictMode (opts s) \<and>
           (onLimitExceeded (opts s) \<longrightarrow>
              raises s (events s)
                (OnLimitExceeded
                   \<lparr>a_attemptNumber = violationCount s + 1, a_attemptedValue = v,
                    a_currentValue = cur_value s, a_mutationCount = mutationCount s,
                    a_violationCount = violationCount s + 1, a_timestamp = now s,
                    a_totalAttempts = mutationCount s + (violationCount s + 1),
                    a_mutationPath = None, a_mutationType = None\<rparr>) = None)
        then 1 else 0)"
  by (auto simp add: set_exceeded_def Let_def after_call_snd thrown_call_if ovc_call_onViolation
        is_onViolation_def)

lemma ovc_hdm_admit:
  "onViolation_calls (snd (hdm_admit p nv ov mt s)) = onViolation_calls s"
  "onViolation_calls (snd (set_admit nv ov st s)) = onViolation_calls s"
  by (simp_all add: hdm_admit_def set_admit_def Let_def after_call_snd is_onViolation_def)

lemma ovc_hdm:
  "onViolation_calls (snd (handleDeepMutation p nv ov mt s)) =
     onViolation_calls s +
       (if onViolation (opts s) \<and> \<not> onViolationCalled s \<and>
           (frozen s \<or>
            strictMode (opts s) \<and> maxMutations s \<le> mutationCount s \<and>
            (onLimitExceeded (opts s) \<longrightarrow>
               raises s (events s)
                 (OnLimitExceeded
                    \<lparr>a_attemptNumber = violationCount s + 1, a_attemptedValue = nv,
                     a_currentValue = ov, a_mutationCount = mutationCount s,
                     a_violationCount = violationCount s + 1, a_timestamp = now s,
                     a_totalAttempts = mutationCount s + (violationCount s + 1),
                     a_mutationPath = Some p, a_mutationType = Some mt\<rparr>) = None))
        then 1 else 0)"
  by (auto simp add: handleDeepMutation_def Let_def ovc_hdm_frozen ovc_hdm_exceeded
        ovc_hdm_admit)

subsection \<open>The constructor\<close>


subsection \<open>Evaluation of concrete programs\<close>

lemmas eval_defs = state_of_def new_LimitedVariable_def default_options_def
  andThen_def ret_def push_history_def after_def set_value_def lift_def set_admit_def Let_def
  last_mutation_check_def set_exceeded_def set_frozen_def call_onViolation_def
  isObjectOrArray_def emit_def remaining_def history_ref_def msg_or_def
  wrap_value_def after_call_def call_if_def invoke_def returning_def

subsection \<open>Two tests of the repository, replayed\<close>

text \<open>\<open>game.value.player.name = 'Super Hero'\<close>, \<open>game.value.player.stats.hp = 200\<close>,
  \<open>game.value.world.enemies.push('orc')\<close>, \<open>game.value.world.level = 2\<close>: the test
  expects the counts 1, 2, 3, 4.\<close>

lemma nested_modifications_test:
  "mutationCount (state_of (after game_var
     (assign_at 10 [KStr ''player''] (KStr ''name'') (Str ''Super Hero'')))) = 1 \<and>
   mutationCount (state_of (after (after game_var
     (assign_at 10 [KStr ''player''] (KStr ''name'') (Str ''Super Hero'')))
     (assign_at 10 [KStr ''player'', KStr ''stats''] (KStr ''hp'') (Num 200)))) = 2 \<and>
   mutationCount (state_of (after (after (after game_var
     (assign_at 10 [KStr ''player''] (KStr ''name'') (Str ''Super Hero'')))
     (assign_at 10 [KStr ''player'', KStr ''stats''] (KStr ''hp'') (Num 200)))
     (push_at 10 [KStr ''world'', KStr ''enemies''] (Str ''orc'')))) = 3 \<and>
   mutationCount (state_of (after (after (after (after game_var
     (assign_at 10 [KStr ''player''] (KStr ''name'') (Str ''Super Hero'')))
     (assign_at 10 [KStr ''player'', KStr ''stats''] (KStr ''hp'') (Num 200)))
     (push_at 10 [KStr ''world'', KStr ''enemies''] (Str ''orc'')))
     (assign_at 10 [KStr ''world''] (KStr ''level'') (Num 2)))) = 4"
  by code_simp

text \<open>\<open>container.value.data.name = 'modified'\<close>,
  \<open>container.value.data.ref.name = 'modified2'\<close>: the test expects the counts 1, 2. The
  back edge \<open>obj2.ref\<close> is left unwrapped by \<open>processedObjects\<close>.\<close>

lemma circular_references_test:
  "mutationCount (state_of (after cyclic_var
     (assign_at 10 [KStr ''data''] (KStr ''name'') (Str ''modified'')))) = 1 \<and>
   mutationCount (state_of (after (after cyclic_var
     (assign_at 10 [KStr ''data''] (KStr ''name'') (Str ''modified'')))
     (assign_at 10 [KStr ''data'', KStr ''ref''] (KStr ''name'') (Str ''modified2'')))) = 2 \<and>
   js_get (heap (state_of cyclic_var)) 1 (KStr ''ref'') = Ref 0"
  by code_simp

text \<open>On \<open>limitedLet(['a'], 3)\<close>: the assignment \<open>v.value['01'] = 1\<close> is reported by the
  array handler, the name being one of digits, and stored as an ordinary property; the
  assignment \<open>v.value.length = 0\<close> is not reported.\<close>

lemma digit_name_reported_length_not:
  "mutationCount (state_of (after list_var (value_assign 10 (KStr ''01'') (Num 1)))) = 1 \<and>
   js_length (heap (state_of (after list_var (value_assign 10 (KStr ''01'') (Num 1))))) 0 = 1 \<and>
   js_get (heap (state_of (after list_var (value_assign 10 (KStr ''01'') (Num 1))))) 0
     (KStr ''01'') = Num 1 \<and>
   mutationCount (state_of (after list_var (value_assign 10 (KStr ''length'') (Num 0)))) = 0 \<and>
   js_length (heap (state_of (after list_var (value_assign 10 (KStr ''length'') (Num 0))))) 0 = 0"
  by code_simp

text \<open>On \<open>limitedLet({a: {}, b: {}}, 1, {autoFreeze: false})\<close> the write
  \<open>v.value = v.value\<close> hands the proxy of the value to \<open>#createDeepProxy\<close>, which
  assigns the two properties through the proxy: the first assignment is counted, the
  second is over the limit and throws.\<close>

lemma rewrite_throws_while_wrapping:
  "threw (after shared_var (value_rewrite 10)) \<and>
   violationCount (state_of (after shared_var (value_rewrite 10))) = 1 \<and>
   mutationCount (state_of (after shared_var (value_rewrite 10))) = 1"
  by code_simp

text \<open>On \<open>limitedLet(0, 1, {onMutate: () => { throw new Error('boom') }, onLastMutation: f})\<close>
  the write \<open>v.value = 1\<close> is admitted and counted, \<open>onMutate\<close> throws, and the rest of
  the setter does not run: \<open>f\<close> is not called and the variable is not frozen.\<close>

lemma throwing_onMutate_skips_onLastMutation:
  "threw (after noisy_var (set_value 0 (Num 1))) \<and>
   mutationCount (state_of (after noisy_var (set_value 0 (Num 1)))) = 1 \<and>
   maxMutations (state_of (after noisy_var (set_value 0 (Num 1)))) = 1 \<and>
   cur_value (state_of (after noisy_var (set_value 0 (Num 1)))) = Num 1 \<and>
   \<not> frozen (state_of (after noisy_var (set_value 0 (Num 1)))) \<and>
   onLastMutation_calls (state_of (after noisy_var (set_value 0 (Num 1)))) = 0"
  by code_simp

section \<open>The claims\<close>

text \<open>
  Claim C1. For a variable constructed with limit \<open>n\<close> and every sequence of write
  attempts (top-level reassignments, deep property or index edits, deletions, calls of
  mutating array methods, in any mix), exactly the first \<open>n\<close> attempts are admitted and
  the \<open>(n+1)\<close>-th is the first one rejected.

  The class does not do this. On \<open>const v = limitedLet([{x: 1}], 3)\<close> the program
  \<open>v.value.push(0); v.value[0].x = 2; v.value[0].x = 3\<close> makes three attempts: the
  first is counted once, the second is counted twice and freezes the variable, and the
  third, still within the limit, throws. After the \<open>push\<close>, \<open>#rewrapArrayElements\<close> finds
  the proxy of \<open>{x: 1}\<close> at index 0, does not find it among the keys of \<open>#deepProxies\<close>
  (only the root was registered), and wraps the proxy in a second proxy; an assignment
  through the outer proxy runs both \<open>set\<close> traps.
\<close>

theorem rewrapped_element_edit_counted_twice:
  "maxMutations (state_of records_var) = 3 \<and>
   returned (after records_var (value_push 10 (Num 0))) \<and>
   mutationCount (state_of (after records_var (value_push 10 (Num 0)))) = 1 \<and>
   returned (after (after records_var (value_push 10 (Num 0)))
               (value_elem_assign 10 0 (KStr ''x'') (Num 2))) \<and>
   mutationCount (state_of (after (after records_var (value_push 10 (Num 0)))
               (value_elem_assign 10 0 (KStr ''x'') (Num 2)))) = 3 \<and>
   threw (after (after (after records_var (value_push 10 (Num 0)))
               (value_elem_assign 10 0 (KStr ''x'') (Num 2)))
               (value_elem_assign 10 0 (KStr ''x'') (Num 3)))"
  by code_simp

text \<open>
  Claim C2. Once \<open>frozen\<close> is true, every later write attempt, a top-level reassignment
  or a deep structural edit, is rejected without applying the value, in strict and in
  non-strict mode.

  The class does not do this for a deep edit in non-strict mode. On
  \<open>const v = limitedLet({x: 1}, 5, {strictMode: false}); v.freeze()\<close> the assignment
  \<open>v.value.x = 2\<close> returns normally and \<open>x\<close> is 2 afterwards: the frozen branch of
  \<open>#handleDeepMutation\<close> returns to the \<open>set\<close> trap, which goes on to \<open>Reflect.set\<close>.
  The setter, in the same state, leaves the stored value as it is.
\<close>

theorem frozen_deep_write_applied_when_not_strict:
  "js_get (heap (state_of tracking_var)) (addr_of (cur_value (state_of tracking_var)))
     (KStr ''x'') = Num 1 \<and>
   frozen (state_of (after tracking_var do_freeze)) \<and>
   returned (after (after tracking_var do_freeze) (value_assign 10 (KStr ''x'') (Num 2))) \<and>
   frozen (state_of (after (after tracking_var do_freeze)
             (value_assign 10 (KStr ''x'') (Num 2)))) \<and>
   js_get (heap (state_of (after (after tracking_var do_freeze)
             (value_assign 10 (KStr ''x'') (Num 2)))))
     (addr_of (cur_value (state_of tracking_var))) (KStr ''x'') = Num 2 \<and>
   returned (after (after tracking_var do_freeze) (set_value 10 (Num 7))) \<and>
   cur_value (state_of (after (after tracking_var do_freeze) (set_value 10 (Num 7)))) =
     cur_value (state_of tracking_var)"
  by code_simp

text \<open>
  Claim C3, as stated: \<open>violationCount\<close> increments only on rejected-but-tracked
  mutations in non-strict mode, and is unchanged by every write rejected under
  \<open>strictMode = true\<close>. This fails on \<open>limitedLet('s', 1, {autoFreeze: false})\<close>: the
  second write is rejected by an exception in strict mode, and \<open>violationCount\<close> goes
  from 0 to 1.
\<close>

theorem strict_rejection_counts_violation:
  "strictMode (opts (state_of (after manual_var (set_value 0 (Str ''a''))))) \<and>
   violationCount (state_of (after manual_var (set_value 0 (Str ''a'')))) = 0 \<and>
   threw (after (after manual_var (set_value 0 (Str ''a''))) (set_value 0 (Str ''b''))) \<and>
   violationCount (state_of
     (after (after manual_var (set_value 0 (Str ''a''))) (set_value 0 (Str ''b'')))) = 1"
  by (simp add: manual_var_def eval_defs threw_def)

text \<open>
  Claim C3, amended. \<open>violationCount\<close> is a natural number. An admission decision, that
  is one pass through the guard at the head of \<open>#handleDeepMutation\<close> or of the setter,
  adds one to it exactly when the variable is not frozen and the limit is used up,
  whatever the mode: in strict mode the attempt is then rejected by an exception and is
  counted all the same. A decision that admits the attempt, or rejects it because the
  variable is frozen, leaves the count as it is. A successful \<open>reset()\<close> sets the count to
  0, a refused one changes nothing. Nothing else changes the count: every operation
  other than \<open>reset()\<close> is a sequence of such decisions and of steps that leave the count
  alone, so the count does not decrease between resets. One operation may hold several
  decisions: an admitted top-level write first wraps its value, the wrapping may report
  assignments to \<open>#handleDeepMutation\<close>, each counted by the same rule, and the admitted
  block of the setter then leaves the count as the wrapping left it.

  In the theorem: the rule for \<open>#handleDeepMutation\<close>; the setter returns whenever no
  wrapping takes place; the rule for the setter in each of its three cases; \<open>reset\<close>;
  every operation is \<open>reset\<close> or a sequence of steps of the class; the rule for each
  step.
\<close>

theorem violationCount_accounting:
  "violationCount (snd (handleDeepMutation p nv ov mt s)) =
     (if \<not> frozen s \<and> maxMutations s \<le> mutationCount s then violationCount s + 1
      else violationCount s) \<and>
   (strictMode (opts s) \<and> \<not> frozen s \<and> maxMutations s \<le> mutationCount s \<longrightarrow>
      is_thrown (fst (handleDeepMutation p nv ov mt s))) \<and>
   (frozen s \<or> maxMutations s \<le> mutationCount s \<or>
      \<not> (trackDeepMutations (opts s) \<and> isObjectOrArray (heap s) v) \<longrightarrow>
    (\<exists>r s'. set_value n v s = Some (r, s'))) \<and>
   (set_value n v s = Some (r, s') \<longrightarrow>
      (frozen s \<longrightarrow> violationCount s' = violationCount s) \<and>
      (\<not> frozen s \<and> maxMutations s \<le> mutationCount s \<longrightarrow>
         violationCount s' = violationCount s + 1 \<and> (strictMode (opts s) \<longrightarrow> is_thrown r)) \<and>
      (\<not> frozen s \<and> mutationCount s < maxMutations s \<longrightarrow>
         (\<exists>w u. wrap_value n v s = Some (w, u) \<and> gstep\<^sup>*\<^sup>* s u \<and>
            violationCount s' = violationCount u) \<and>
         (\<not> (trackDeepMutations (opts s) \<and> isObjectOrArray (heap s) v) \<longrightarrow>
            violationCount s' = violationCount s))) \<and>
   (allowReset (opts s) \<longrightarrow> fst (reset s) = Returned () \<and> violationCount (snd (reset s)) = 0) \<and>
   (\<not> allowReset (opts s) \<longrightarrow> is_thrown (fst (reset s)) \<and> snd (reset s) = s) \<and>
   (exec n ope s = Some (x, t) \<longrightarrow>
      (if is_reset ope then (x, t) = reset s
       else gstep\<^sup>*\<^sup>* s t \<and> violationCount s \<le> violationCount t)) \<and>
   (gstep s t \<longrightarrow>
      violationCount t = violationCount s \<or>
      \<not> frozen s \<and> maxMutations s \<le> mutationCount s \<and> violationCount t = violationCount s + 1)"
proof (intro conjI impI)
  show "violationCount (snd (handleDeepMutation p nv ov mt s)) =
     (if \<not> frozen s \<and> maxMutations s \<le> mutationCount s then violationCount s + 1
      else violationCount s)"
    by (rule vc_hdm)
next
  assume "strictMode (opts s) \<and> \<not> frozen s \<and> maxMutations s \<le> mutationCount s"
  then show "is_thrown (fst (handleDeepMutation p nv ov mt s))"
    by (simp add: thrown_hdm)
next
  assume "frozen s \<or> maxMutations s \<le> mutationCount s \<or>
      \<not> (trackDeepMutations (opts s) \<and> isObjectOrArray (heap s) v)"
  then show "\<exists>r s'. set_value n v s = Some (r, s')"
    by (cases "frozen s"; cases "maxMutations s \<le> mutationCount s")
       (auto simp add: set_value_atomic)
next
  assume "set_value n v s = Some (r, s')" "frozen s"
  then show "violationCount s' = violationCount s"
    using vc_set_frozen [of v s] by (simp add: set_value_atomic)
next
  assume a: "set_value n v s = Some (r, s')" "\<not> frozen s \<and> maxMutations s \<le> mutationCount s"
  then show "violationCount s' = violationCount s + 1"
    using vc_set_exceeded [of v s] by (simp add: set_value_atomic)
  assume "strictMode (opts s)"
  with a show "is_thrown r"
    using thrown_set(2) [where v = v and s = s] by (simp add: set_value_atomic)
next
  assume a: "set_value n v s = Some (r, s')" "\<not> frozen s \<and> mutationCount s < maxMutations s"
  then show "\<exists>w u. wrap_value n v s = Some (w, u) \<and> gstep\<^sup>*\<^sup>* s u \<and>
            violationCount s' = violationCount u"
    by (simp add: set_value_violationCount)
  assume "\<not> (trackDeepMutations (opts s) \<and> isObjectOrArray (heap s) v)"
  with a show "violationCount s' = violationCount s"
    using vc_set_admit [of v "cur_value s" v s] by (simp add: set_value_atomic)
next
  assume "allowReset (opts s)"
  then show "fst (reset s) = Returned ()" "violationCount (snd (reset s)) = 0"
    by (simp_all add: reset_def Let_def push_history_def)
next
  assume "\<not> allowReset (opts s)"
  then show "is_thrown (fst (reset s))" "snd (reset s) = s"
    by (simp_all add: reset_def)
next
  assume e: "exec n ope s = Some (x, t)"
  show "if is_reset ope then (x, t) = reset s
       else gstep\<^sup>*\<^sup>* s t \<and> violationCount s \<le> violationCount t"
  proof (cases "is_reset ope")
    case True
    with e show ?thesis
      by (simp add: exec_reset)
  next
    case False
    from exec_steps [OF False e] False show ?thesis
      by (simp add: rtrancl_violationCount)
  qed
next
  assume "gstep s t"
  then show "violationCount t = violationCount s \<or>
      \<not> frozen s \<and> maxMutations s \<le> mutationCount s \<and> violationCount t = violationCount s + 1"
    by (rule gstep_violationCount)
qed

text \<open>On \<open>limitedLet('s', 1, {autoFreeze: false})\<close> after one write: a deep edit reported
  in strict mode throws and raises the count to 1. On
  \<open>limitedLet({a: {}, b: {}}, 1, {autoFreeze: false})\<close>: the write \<open>v.value = v.value\<close> is
  admitted by the setter and throws while wrapping; the count of violations is 1, as
  the wrapping left it.\<close>

theorem violationCount_accounting_witness:
  "violationCount (snd (handleDeepMutation [KStr ''x''] (Num 2) (Num 1) Property
       (state_of (after manual_var (set_value 0 (Str ''a'')))))) = 1 \<and>
   is_thrown (fst (handleDeepMutation [KStr ''x''] (Num 2) (Num 1) Property
       (state_of (after manual_var (set_value 0 (Str ''a'')))))) \<and>
   (\<exists>r s' w u.
      set_value 10 (cur_value (state_of shared_var)) (state_of shared_var) = Some (r, s') \<and>
      wrap_value 10 (cur_value (state_of shared_var)) (state_of shared_var) = Some (w, u) \<and>
      is_thrown r \<and> violationCount (state_of shared_var) = 0 \<and>
      violationCount u = 1 \<and> violationCount s' = 1)"
proof -
  let ?w = "state_of (after manual_var (set_value 0 (Str ''a'')))"
  let ?s = "state_of shared_var"
  have h: "strictMode (opts ?w) \<and> \<not> frozen ?w \<and> maxMutations ?w \<le> mutationCount ?w"
    and v: "violationCount ?w = 0"
    by (simp_all add: manual_var_def eval_defs)
  from violationCount_accounting [where p = "[KStr ''x'']" and nv = "Num 2" and ov = "Num 1"
      and mt = Property and s = ?w] h v
  have 1: "violationCount (snd (handleDeepMutation [KStr ''x''] (Num 2) (Num 1) Property ?w)) = 1"
    "is_thrown (fst (handleDeepMutation [KStr ''x''] (Num 2) (Num 1) Property ?w))"
    by simp_all
  have t: "threw (set_value 10 (cur_value ?s) ?s)"
    and c: "violationCount (state_of (set_value 10 (cur_value ?s) ?s)) = 1"
    and g: "\<not> frozen ?s \<and> mutationCount ?s < maxMutations ?s" "violationCount ?s = 0"
    by code_simp+
  from t obtain e s' where e: "set_value 10 (cur_value ?s) ?s = Some (Thrown e, s')"
    by (auto simp add: threw_def split: option.splits prod.splits outcome.splits)
  with c have c': "violationCount s' = 1"
    by (simp add: state_of_def)
  from violationCount_accounting [where s = ?s and n = 10 and v = "cur_value ?s"
      and r = "Thrown e" and s' = s'] e g
  obtain w u where "wrap_value 10 (cur_value ?s) ?s = Some (w, u)"
    "violationCount s' = violationCount u"
    by blast
  with e c' g(2) have "\<exists>r s' w u.
      set_value 10 (cur_value ?s) ?s = Some (r, s') \<and>
      wrap_value 10 (cur_value ?s) ?s = Some (w, u) \<and>
      is_thrown r \<and> violationCount ?s = 0 \<and> violationCount u = 1 \<and> violationCount s' = 1"
    by (intro exI [of _ "Thrown e"] exI [of _ s'] exI [of _ w] exI [of _ u]) simp
  with 1 show ?thesis
    by blast
qed

text \<open>
  Claim C4. Every invocation of a mutating array method (\<open>push\<close>, \<open>pop\<close>, \<open>shift\<close>,
  \<open>unshift\<close>, \<open>splice\<close>, \<open>sort\<close>, \<open>reverse\<close>, \<open>fill\<close>) on a deep-tracked array routes
  exactly one mutation attempt through the admission policy.

  The class does not do this. On \<open>const v = limitedLet([{a: {}}], 5)\<close> the single call
  \<open>v.value.push(1)\<close> leaves \<open>mutationCount\<close> at 2: after the built-in \<open>push\<close>,
  \<open>#rewrapArrayElements\<close> wraps the proxy of \<open>{a: {}}\<close> again, and \<open>createProxy\<close>, run
  on that proxy, assigns its property \<open>a\<close> through the proxy's own \<open>set\<close> trap, which
  reports a second mutation.
\<close>

theorem push_on_nested_records_counted_twice:
  "mutationCount (state_of nested_var) = 0 \<and>
   returned (after nested_var (value_push 10 (Num 1))) \<and>
   mutationCount (state_of (after nested_var (value_push 10 (Num 1)))) = 2"
  by code_simp

text \<open>
  Claim C5. The read operation (the getter of \<open>value\<close>) throws \<open>MutationLimitExceeded\<close>
  if and only if \<open>strictMode\<close> is true and a violation has occurred (\<open>violated\<close> is
  true); in every other case it returns the stored value; it never changes the state.
\<close>

theorem read_throws_iff_strict_and_violated:
  "((\<exists>e. fst (get_value s) = Thrown e) \<longleftrightarrow> strictMode (opts s) \<and> violated s) \<and>
   (\<forall>e. fst (get_value s) = Thrown e \<longrightarrow> (\<exists>c. e = MutationLimitExceeded ReadAfterViolation c)) \<and>
   (\<not> (strictMode (opts s) \<and> violated s) \<longrightarrow> fst (get_value s) = Returned (cur_value s)) \<and>
   snd (get_value s) = s"
  by (simp add: get_value_def)

text \<open>On \<open>limitedLet('s', 1, {autoFreeze: false})\<close>: the read returns \<open>'s'\<close> at first, and
  throws once a second write has been rejected.\<close>

theorem read_throws_iff_strict_and_violated_witness:
  "fst (get_value (state_of manual_var)) = Returned (Str ''s'') \<and>
   is_thrown (fst (get_value (state_of
      (after (after manual_var (set_value 0 (Str ''a''))) (set_value 0 (Str ''b''))))))"
proof -
  let ?w1 = "state_of manual_var"
  let ?w2 = "state_of
      (after (after manual_var (set_value 0 (Str ''a''))) (set_value 0 (Str ''b'')))"
  have 1: "\<not> (strictMode (opts ?w1) \<and> violated ?w1)" "cur_value ?w1 = Str ''s''"
    by (simp_all add: manual_var_def eval_defs)
  have 2: "strictMode (opts ?w2) \<and> violated ?w2"
    by (simp add: manual_var_def eval_defs)
  from read_throws_iff_strict_and_violated [of ?w1] 1
  have a: "fst (get_value ?w1) = Returned (Str ''s'')"
    by simp
  from read_throws_iff_strict_and_violated [of ?w2] 2
  obtain e where "fst (get_value ?w2) = Thrown e"
    by blast
  then have "is_thrown (fst (get_value ?w2))"
    by (simp add: is_thrown_def)
  with a show ?thesis
    by simp
qed

text \<open>
  Claim C6. The \<open>onViolation\<close> callback is invoked at most once in the lifetime of a
  variable, over all rejection paths (frozen and limit-exceeded, shallow and deep) and
  however many rejections occur; a successful \<open>reset()\<close> re-arms it, so that it may
  fire once more.

  In a run of any operations, the calls of \<open>onViolation\<close> number at most one (none if
  the one-shot flag was already set at the start) plus, where \<open>allowReset\<close> is set, one
  for each \<open>reset()\<close> in the run; this holds whatever the callbacks do, the flag being
  set before the call. A successful \<open>reset()\<close> clears the flag and calls nothing. One
  pass of \<open>#handleDeepMutation\<close>, and one rejected write through the setter, call
  \<open>onViolation\<close> once exactly when the callback is supplied, the flag is clear, and the
  write is rejected as frozen, or as over the limit in strict mode with the call of
  \<open>onLimitExceeded\<close> that comes first returning (or \<open>onLimitExceeded\<close> absent); they do
  not call it otherwise.
\<close>

theorem onViolation_at_most_once_per_arming:
  "(run n ops s = Some s' \<longrightarrow>
      onViolation_calls s' \<le>
        onViolation_calls s + (if allowReset (opts s) then length (filter is_reset ops) else 0) +
        (if onViolationCalled s then 0 else 1)) \<and>
   (allowReset (opts s) \<longrightarrow>
      fst (reset s) = Returned () \<and> \<not> onViolationCalled (snd (reset s)) \<and>
      events (snd (reset s)) = events s \<and> opts (snd (reset s)) = opts s) \<and>
   onViolation_calls (snd (handleDeepMutation p nv ov mt s)) =
     onViolation_calls s +
       (if onViolation (opts s) \<and> \<not> onViolationCalled s \<and>
           (frozen s \<or>
            strictMode (opts s) \<and> maxMutations s \<le> mutationCount s \<and>
            (onLimitExceeded (opts s) \<longrightarrow>
               raises s (events s)
                 (OnLimitExceeded
                    \<lparr>a_attemptNumber = violationCount s + 1, a_attemptedValue = nv,
                     a_currentValue = ov, a_mutationCount = mutationCount s,
                     a_violationCount = violationCount s + 1, a_timestamp = now s,
                     a_totalAttempts = mutationCount s + (violationCount s + 1),
                     a_mutationPath = Some p, a_mutationType = Some mt\<rparr>) = None))
        then 1 else 0) \<and>
   (frozen s \<or> maxMutations s \<le> mutationCount s \<longrightarrow>
      (\<exists>r u. set_value n v s = Some (r, u) \<and>
         onViolation_calls u =
           onViolation_calls s +
             (if onViolation (opts s) \<and> \<not> onViolationCalled s \<and>
                 (frozen s \<or>
                  strictMode (opts s) \<and>
                  (onLimitExceeded (opts s) \<longrightarrow>
                     raises s (events s)
                       (OnLimitExceeded
                          \<lparr>a_attemptNumber = violationCount s + 1, a_attemptedValue = v,
                           a_currentValue = cur_value s, a_mutationCount = mutationCount s,
                           a_violationCount = violationCount s + 1, a_timestamp = now s,
                           a_totalAttempts = mutationCount s + (violationCount s + 1),
                           a_mutationPath = None, a_mutationType = None\<rparr>) = None))
              then 1 else 0)))"
proof (intro conjI impI)
  assume "run n ops s = Some s'"
  from run_budget_allowed [OF this] show "onViolation_calls s' \<le>
        onViolation_calls s + (if allowReset (opts s) then length (filter is_reset ops) else 0) +
        (if onViolationCalled s then 0 else 1)"
    by (simp add: violation_budget_def split: if_splits)
next
  assume "allowReset (opts s)"
  then show "fst (reset s) = Returned ()" "\<not> onViolationCalled (snd (reset s))"
    "events (snd (reset s)) = events s" "opts (snd (reset s)) = opts s"
    by (simp_all add: reset_def Let_def push_history_def)
next
  show "onViolation_calls (snd (handleDeepMutation p nv ov mt s)) =
     onViolation_calls s +
       (if onViolation (opts s) \<and> \<not> onViolationCalled s \<and>
           (frozen s \<or>
            strictMode (opts s) \<and> maxMutations s \<le> mutationCount s \<and>
            (onLimitExceeded (opts s) \<longrightarrow>
               raises s (events s)
                 (OnLimitExceeded
                    \<lparr>a_attemptNumber = violationCount s + 1, a_attemptedValue = nv,
                     a_currentValue = ov, a_mutationCount = mutationCount s,
                     a_violationCount = violationCount s + 1, a_timestamp = now s,
                     a_totalAttempts = mutationCount s + (violationCount s + 1),
                     a_mutationPath = Some p, a_mutationType = Some mt\<rparr>) = None))
        then 1 else 0)"
    by (rule ovc_hdm)
next
  assume a: "frozen s \<or> maxMutations s \<le> mutationCount s"
  show "\<exists>r u. set_value n v s = Some (r, u) \<and>
         onViolation_calls u =
           onViolation_calls s +
             (if onViolation (opts s) \<and> \<not> onViolationCalled s \<and>
                 (frozen s \<or>
                  strictMode (opts s) \<and>
                  (onLimitExceeded (opts s) \<longrightarrow>
                     raises s (events s)
                       (OnLimitExceeded
                          \<lparr>a_attemptNumber = violationCount s + 1, a_attemptedValue = v,
                           a_currentValue = cur_value s, a_mutationCount = mutationCount s,
                           a_violationCount = violationCount s + 1, a_timestamp = now s,
                           a_totalAttempts = mutationCount s + (violationCount s + 1),
                           a_mutationPath = None, a_mutationType = None\<rparr>) = None))
              then 1 else 0)"
  proof (cases "frozen s")
    case True
    with ovc_set_frozen [where v = v and s = s] show ?thesis
      by (cases "set_frozen v s") (simp add: set_value_atomic)
  next
    case False
    with a ovc_set_exceeded [where v = v and s = s] show ?thesis
      by (cases "set_exceeded v s") (simp add: set_value_atomic)
  qed
qed

text \<open>On \<open>limitedLet(0, 1, {allowReset: true, onViolation: f})\<close>: one write, two
  rejected writes, a reset, one write and two more rejected writes call \<open>f\<close> twice.\<close>

theorem onViolation_at_most_once_per_arming_witness:
  "\<exists>s. run 0 [Write (Num 1), Write (Num 2), Write (Num 3), ResetVar,
              Write (Num 4), Write (Num 5), Write (Num 6)] (state_of watched_var) = Some s \<and>
       onViolation_calls s = 2 \<and>
       onViolation_calls s \<le> onViolation_calls (state_of watched_var) + 1 + 1"
proof -
  let ?ops = "[Write (Num 1), Write (Num 2), Write (Num 3), ResetVar,
              Write (Num 4), Write (Num 5), Write (Num 6)]"
  let ?w = "state_of watched_var"
  have "\<exists>s. run 0 ?ops ?w = Some s \<and> onViolation_calls s = 2"
    by (simp add: watched_var_def exec_def eval_defs reset_def onViolation_calls_def
          is_onViolation_def)
  then obtain s where r: "run 0 ?ops ?w = Some s" and c: "onViolation_calls s = 2"
    by blast
  have f: "length (filter is_reset ?ops) = 1" "\<not> onViolationCalled ?w" "allowReset (opts ?w)"
    by (simp_all add: is_reset_def watched_var_def eval_defs)
  from onViolation_at_most_once_per_arming [of 0 ?ops ?w s] r f
  have "onViolation_calls s \<le> onViolation_calls ?w + 1 + 1"
    by simp
  with r c show ?thesis
    by blast
qed




text \<open>
  Claim C8, as stated: \<open>reset()\<close>, when allowed, appends a reset record to the history.
  This fails on \<open>limitedLet(0, 2, {trackHistory: false, allowReset: true})\<close>: the reset
  succeeds and the log is as before, empty.
\<close>

theorem reset_without_history_appends_nothing:
  "allowReset (opts (state_of unlogged_var)) \<and>
   fst (reset (state_of unlogged_var)) = Returned () \<and>
   history (snd (reset (state_of unlogged_var))) = history (state_of unlogged_var) \<and>
   history (snd (reset (state_of unlogged_var))) = []"
  by (simp add: unlogged_var_def eval_defs reset_def)

text \<open>
  Claim C8, amended. \<open>reset()\<close> throws a configuration error and changes nothing when
  \<open>allowReset\<close> is false. When \<open>allowReset\<close> is true it sets \<open>mutationCount\<close> and
  \<open>violationCount\<close> to 0, clears \<open>frozen\<close>, \<open>violated\<close> and the one-shot \<open>onViolation\<close>
  flag, leaves the stored value unchanged, and appends a reset record to the history
  when \<open>trackHistory\<close> is enabled. Afterwards the accounting fields are those of a new
  instance, so each of the next \<open>maxMutations\<close> admission decisions (a top-level write
  of a value that is not an object, or a structural edit reported to the guard) admits:
  it is counted as a mutation and no violation is recorded, whatever the callbacks do,
  and it returns normally if no callback throws.
\<close>

theorem reset_restores_accounting:
  "(\<not> allowReset (opts s) \<longrightarrow> reset s = (Thrown (Error ResetDisabled), s)) \<and>
   (allowReset (opts s) \<longrightarrow>
      (\<exists>s'. reset s = (Returned (), s') \<and>
         mutationCount s' = 0 \<and> violationCount s' = 0 \<and> \<not> frozen s' \<and> \<not> violated s' \<and>
         \<not> onViolationCalled s' \<and> deepProxies s' = [] \<and> cur_value s' = cur_value s \<and>
         heap s' = heap s \<and> maxMutations s' = maxMutations s \<and> opts s' = opts s \<and>
         history s' =
           (if trackHistory (opts s)
            then history s @
                 [\<lparr>h_value = cur_value s, h_previousValue = None, h_timestamp = now s,
                   h_mutation = 0, h_mutationPath = None, h_mutationType = None,
                   h_type = Reset\<rparr>]
            else history s) \<and>
         (\<forall>as. length as \<le> maxMutations s \<and> list_all plain_attempt as \<longrightarrow>
            (\<exists>rs t. perform_all as s' = Some (rs, t) \<and> length rs = length as \<and>
               mutationCount t = length as \<and> violationCount t = 0 \<and> \<not> violated t \<and>
               (raises s = returning \<longrightarrow> list_all (\<lambda>r. \<not> is_thrown r) rs)))))"
proof (intro conjI impI)
  assume "\<not> allowReset (opts s)"
  then show "reset s = (Thrown (Error ResetDisabled), s)"
    by (simp add: reset_def)
next
  assume a: "allowReset (opts s)"
  define s' where "s' = snd (reset s)"
  from a have r: "reset s = (Returned (), s')"
    by (simp add: s'_def reset_def Let_def)
  from a have f: "mutationCount s' = 0" "violationCount s' = 0" "\<not> frozen s'" "\<not> violated s'"
    "\<not> onViolationCalled s'" "deepProxies s' = []" "cur_value s' = cur_value s"
    "heap s' = heap s" "maxMutations s' = maxMutations s" "opts s' = opts s"
    "history s' =
           (if trackHistory (opts s)
            then history s @
                 [\<lparr>h_value = cur_value s, h_previousValue = None, h_timestamp = now s,
                   h_mutation = 0, h_mutationPath = None, h_mutationType = None,
                   h_type = Reset\<rparr>]
            else history s)"
    and b: "raises s' = raises s"
    unfolding s'_def by (simp_all add: reset_def Let_def push_history_def)
  have "\<exists>rs t. perform_all as s' = Some (rs, t) \<and> length rs = length as \<and>
               mutationCount t = length as \<and> violationCount t = 0 \<and> \<not> violated t \<and>
               (raises s = returning \<longrightarrow> list_all (\<lambda>r. \<not> is_thrown r) rs)"
    if "length as \<le> maxMutations s \<and> list_all plain_attempt as" for as
    using perform_all_admitted [of s' as] that f b by auto
  with r f show "\<exists>s'. reset s = (Returned (), s') \<and>
         mutationCount s' = 0 \<and> violationCount s' = 0 \<and> \<not> frozen s' \<and> \<not> violated s' \<and>
         \<not> onViolationCalled s' \<and> deepProxies s' = [] \<and> cur_value s' = cur_value s \<and>
         heap s' = heap s \<and> maxMutations s' = maxMutations s \<and> opts s' = opts s \<and>
         history s' =
           (if trackHistory (opts s)
            then history s @
                 [\<lparr>h_value = cur_value s, h_previousValue = None, h_timestamp = now s,
                   h_mutation = 0, h_mutationPath = None, h_mutationType = None,
                   h_type = Reset\<rparr>]
            else history s) \<and>
         (\<forall>as. length as \<le> maxMutations s \<and> list_all plain_attempt as \<longrightarrow>
            (\<exists>rs t. perform_all as s' = Some (rs, t) \<and> length rs = length as \<and>
               mutationCount t = length as \<and> violationCount t = 0 \<and> \<not> violated t \<and>
               (raises s = returning \<longrightarrow> list_all (\<lambda>r. \<not> is_thrown r) rs)))"
    by blast
qed

text \<open>On \<open>limitedLet(0, 1, {allowReset: true, onViolation: f})\<close>, frozen by its one
  write: the reset succeeds and a further edit is admitted; on a variable without
  \<open>allowReset\<close> the reset throws.\<close>

theorem reset_restores_accounting_witness:
  "frozen (state_of (after watched_var (set_value 0 (Num 1)))) \<and>
   (\<exists>s' t. reset (state_of (after watched_var (set_value 0 (Num 1)))) = (Returned (), s') \<and>
      length (history s') = 3 \<and> cur_value s' = Num 1 \<and> \<not> frozen s' \<and>
      perform_all [Deep [KStr ''x''] (Num 2) (Num 1) Property] s' = Some ([Returned ()], t) \<and>
      mutationCount t = 1 \<and> violationCount t = 0) \<and>
   reset (state_of manual_var) = (Thrown (Error ResetDisabled), state_of manual_var)"
proof -
  let ?w = "state_of (after watched_var (set_value 0 (Num 1)))"
  let ?u = "state_of manual_var"
  let ?as = "[Deep [KStr ''x''] (Num 2) (Num 1) Property]"
  have a: "allowReset (opts ?w)" "trackHistory (opts ?w)" "length (history ?w) = 2"
    "cur_value ?w = Num 1" "maxMutations ?w = 1" "frozen ?w" "raises ?w = returning"
    by (simp_all add: watched_var_def eval_defs)
  have b: "\<not> allowReset (opts ?u)"
    by (simp add: manual_var_def eval_defs)
  from reset_restores_accounting [of ?w] a
  obtain s' where r: "reset ?w = (Returned (), s')"
    and f: "\<not> frozen s'" "cur_value s' = cur_value ?w"
      "history s' =
           (if trackHistory (opts ?w)
            then history ?w @
                 [\<lparr>h_value = cur_value ?w, h_previousValue = None, h_timestamp = now ?w,
                   h_mutation = 0, h_mutationPath = None, h_mutationType = None,
                   h_type = Reset\<rparr>]
            else history ?w)"
    and g: "\<forall>as. length as \<le> maxMutations ?w \<and> list_all plain_attempt as \<longrightarrow>
            (\<exists>rs t. perform_all as s' = Some (rs, t) \<and> length rs = length as \<and>
               mutationCount t = length as \<and> violationCount t = 0 \<and> \<not> violated t \<and>
               (raises ?w = returning \<longrightarrow> list_all (\<lambda>r. \<not> is_thrown r) rs))"
    by blast
  have "length ?as \<le> maxMutations ?w \<and> list_all plain_attempt ?as"
    using a by (simp add: plain_attempt_def)
  with g a(7) obtain rs t where p: "perform_all ?as s' = Some (rs, t)" "length rs = length ?as"
    "mutationCount t = length ?as" "violationCount t = 0" "list_all (\<lambda>r. \<not> is_thrown r) rs"
    by blast
  from p(2) obtain x where "rs = [x]"
    by (cases rs) simp_all
  with p(5) have "rs = [Returned ()]"
    by (cases x) simp_all
  with p have "\<exists>t. perform_all ?as s' = Some ([Returned ()], t) \<and>
    mutationCount t = 1 \<and> violationCount t = 0"
    by simp
  moreover from f a have "length (history s') = 3" "cur_value s' = Num 1"
    by simp_all
  moreover from reset_restores_accounting [of ?u] b
  have "reset ?u = (Thrown (Error ResetDisabled), ?u)"
    by blast
  ultimately show ?thesis
    using r f a by blast
qed

text \<open>
  Claim C9, as stated: on a write attempted while frozen, the only state that may change
  is the \<open>violated\<close> flag and the one-shot \<open>onViolation\<close> flag. This fails for a deep
  write: \<open>#handleDeepMutation\<close> first records the attempted path in \<open>#mutationPath\<close>. On
  \<open>const v = limitedLet({x: 1}, 5); v.freeze()\<close> the assignment \<open>v.value.x = 2\<close> throws
  and leaves \<open>#mutationPath\<close> at \<open>['x']\<close>.
\<close>

theorem frozen_deep_write_records_path:
  "frozen (state_of (after object_var do_freeze)) \<and>
   mutationPath (state_of (after object_var do_freeze)) = [] \<and>
   threw (after (after object_var do_freeze) (value_assign 10 (KStr ''x'') (Num 2))) \<and>
   mutationPath (state_of
     (after (after object_var do_freeze) (value_assign 10 (KStr ''x'') (Num 2)))) = [KStr ''x'']"
  by code_simp

text \<open>
  Claim C9, amended. For every write attempted while \<open>frozen\<close> is true, reported to
  \<open>#handleDeepMutation\<close> or made through the setter, in either mode: \<open>mutationCount\<close>,
  \<open>violationCount\<close> and the history are unchanged and \<open>onLimitExceeded\<close> is not called
  (the only callback that may be called is \<open>onViolation\<close>, once); of the fields of the
  variable only \<open>violated\<close>, the one-shot \<open>onViolation\<close> flag and, for a deep write,
  \<open>#mutationPath\<close> (set to the attempted path) may change.

  The theorem adds how the attempt ends: it throws in strict mode, and otherwise only
  if the call of \<open>onViolation\<close> throws.
\<close>

theorem frozen_write_frame:
  assumes "frozen s"
  shows "(\<exists>r s'. handleDeepMutation p nv ov mt s = (r, s') \<and>
            s'\<lparr>violated := violated s, onViolationCalled := onViolationCalled s,
               mutationPath := mutationPath s, events := events s\<rparr> = s \<and>
            mutationPath s' = p \<and> violated s' \<and>
            (events s' = events s \<or> (\<exists>e. events s' = events s @ [OnViolation e])) \<and>
            mutationCount s' = mutationCount s \<and> violationCount s' = violationCount s \<and>
            history s' = history s \<and>
            (is_thrown r \<longleftrightarrow>
               strictMode (opts s) \<or>
               (\<exists>e. events s' = events s @ [OnViolation e] \<and>
                    raises s (events s) (OnViolation e) \<noteq> None))) \<and>
         (\<exists>r s'. set_value n v s = Some (r, s') \<and>
            s'\<lparr>violated := violated s, onViolationCalled := onViolationCalled s,
               events := events s\<rparr> = s \<and>
            violated s' \<and>
            (events s' = events s \<or> (\<exists>e. events s' = events s @ [OnViolation e])) \<and>
            mutationCount s' = mutationCount s \<and> violationCount s' = violationCount s \<and>
            history s' = history s \<and> cur_value s' = cur_value s \<and>
            (is_thrown r \<longleftrightarrow>
               strictMode (opts s) \<or>
               (\<exists>e. events s' = events s @ [OnViolation e] \<and>
                    raises s (events s) (OnViolation e) \<noteq> None)))"
proof (intro conjI)
  obtain r s' where e: "handleDeepMutation p nv ov mt s = (r, s')"
    by (cases "handleDeepMutation p nv ov mt s")
  with frozen_hdm [OF assms, where p = p and nv = nv and ov = ov and mt = mt]
  have a: "s'\<lparr>violated := violated s, onViolationCalled := onViolationCalled s,
               mutationPath := mutationPath s, events := events s\<rparr> = s"
    and b: "mutationPath s' = p" "violated s'"
      "events s' = events s \<or> (\<exists>e. events s' = events s @ [OnViolation e])"
      "is_thrown r \<longleftrightarrow>
         strictMode (opts s) \<or>
         (\<exists>e. events s' = events s @ [OnViolation e] \<and>
              raises s (events s) (OnViolation e) \<noteq> None)"
    by simp_all
  from restored_fields [OF a] a b e
  show "\<exists>r s'. handleDeepMutation p nv ov mt s = (r, s') \<and>
            s'\<lparr>violated := violated s, onViolationCalled := onViolationCalled s,
               mutationPath := mutationPath s, events := events s\<rparr> = s \<and>
            mutationPath s' = p \<and> violated s' \<and>
            (events s' = events s \<or> (\<exists>e. events s' = events s @ [OnViolation e])) \<and>
            mutationCount s' = mutationCount s \<and> violationCount s' = violationCount s \<and>
            history s' = history s \<and>
            (is_thrown r \<longleftrightarrow>
               strictMode (opts s) \<or>
               (\<exists>e. events s' = events s @ [OnViolation e] \<and>
                    raises s (events s) (OnViolation e) \<noteq> None))"
    by blast
next
  obtain r s' where e: "set_frozen v s = (r, s')"
    by (cases "set_frozen v s")
  with frozen_set [where v = v and s = s]
  have a: "s'\<lparr>violated := violated s, onViolationCalled := onViolationCalled s,
               events := events s\<rparr> = s"
    and b: "violated s'"
      "events s' = events s \<or> (\<exists>e. events s' = events s @ [OnViolation e])"
      "is_thrown r \<longleftrightarrow>
         strictMode (opts s) \<or>
         (\<exists>e. events s' = events s @ [OnViolation e] \<and>
              raises s (events s) (OnViolation e) \<noteq> None)"
    by simp_all
  from a have "s'\<lparr>violated := violated s, onViolationCalled := onViolationCalled s,
               mutationPath := mutationPath s', events := events s\<rparr> = s"
    by (cases s', cases s) simp
  from restored_fields [OF this] have c: "mutationCount s' = mutationCount s"
      "violationCount s' = violationCount s" "history s' = history s"
      "cur_value s' = cur_value s"
    by simp_all
  from assms e have "set_value n v s = Some (r, s')"
    by (simp add: set_value_atomic)
  with a b c show "\<exists>r s'. set_value n v s = Some (r, s') \<and>
            s'\<lparr>violated := violated s, onViolationCalled := onViolationCalled s,
               events := events s\<rparr> = s \<and>
            violated s' \<and>
            (events s' = events s \<or> (\<exists>e. events s' = events s @ [OnViolation e])) \<and>
            mutationCount s' = mutationCount s \<and> violationCount s' = violationCount s \<and>
            history s' = history s \<and> cur_value s' = cur_value s \<and>
            (is_thrown r \<longleftrightarrow>
               strictMode (opts s) \<or>
               (\<exists>e. events s' = events s @ [OnViolation e] \<and>
                    raises s (events s) (OnViolation e) \<noteq> None))"
    by blast
qed

text \<open>On \<open>const v = limitedLet({x: 1}, 5); v.freeze()\<close>: a deep edit of \<open>x\<close> throws,
  and leaves both counts at 0 and the log at its one entry.\<close>

theorem frozen_write_frame_witness:
  "\<exists>r s'. handleDeepMutation [KStr ''x''] (Num 2) (Num 1) Property
             (state_of (after object_var do_freeze)) = (r, s') \<and>
      is_thrown r \<and> mutationCount s' = 0 \<and> violationCount s' = 0 \<and>
      length (history s') = 1 \<and> violated s' \<and> mutationPath s' = [KStr ''x'']"
proof -
  let ?w = "state_of (after object_var do_freeze)"
  have f: "frozen ?w" and g: "strictMode (opts ?w)"
    "mutationCount ?w = 0" "violationCount ?w = 0" "length (history ?w) = 1"
    by code_simp+
  from frozen_write_frame [OF f, of "[KStr ''x'']" "Num 2" "Num 1" Property 0 "Num 7"]
  obtain r s' where a: "handleDeepMutation [KStr ''x''] (Num 2) (Num 1) Property ?w = (r, s')"
    and d: "mutationCount s' = mutationCount ?w" "violationCount s' = violationCount ?w"
            "history s' = history ?w"
            "is_thrown r \<longleftrightarrow>
               strictMode (opts ?w) \<or>
               (\<exists>e. events s' = events ?w @ [OnViolation e] \<and>
                    raises ?w (events ?w) (OnViolation e) \<noteq> None)"
            "violated s'" "mutationPath s' = [KStr ''x'']"
    by blast
  from a d g show ?thesis
    by simp
qed

text \<open>
  Claim C10. With \<open>trackHistory\<close> enabled, every read of \<open>history\<close> returns a new array
  holding the entries of the log: editing the returned array (adding, removing or
  replacing entries) does not change the log, and later reads of \<open>history\<close> and
  \<open>toJSON\<close> snapshots show the log unchanged. (The entries themselves are shared with
  the log, as in any shallow copy; the claim is about the array.)
\<close>

theorem history_read_returns_fresh_copy:
  assumes "trackHistory (opts s)"
  shows "\<exists>i s1. get_history s = (Returned (HCopy i), s1) \<and>
           hist_deref s (HCopy i) = None \<and>
           hist_deref s1 (HCopy i) = Some (history s) \<and>
           history s1 = history s \<and>
           (\<forall>f. \<exists>j s3.
              history (hist_array_edit (HCopy i) f s1) = history s \<and>
              hist_deref (hist_array_edit (HCopy i) f s1) (HCopy i) = Some (f (history s)) \<and>
              j_history (toJSON (hist_array_edit (HCopy i) f s1)) = Some HInternal \<and>
              hist_deref (hist_array_edit (HCopy i) f s1) HInternal = Some (history s) \<and>
              get_history (hist_array_edit (HCopy i) f s1) = (Returned (HCopy j), s3) \<and>
              j \<noteq> i \<and>
              hist_deref s3 (HCopy j) = Some (history s))"
  using assms
  by (simp add: get_history_def hist_deref_def hist_array_edit_def toJSON_def history_ref_def
        nth_append)

text \<open>On \<open>limitedLet('s', 1, {autoFreeze: false})\<close>: the array of the first read is
  emptied by the caller; the second read still returns the one entry of the log.\<close>

theorem history_read_returns_fresh_copy_witness:
  "\<exists>i s1 j s3. get_history (state_of manual_var) = (Returned (HCopy i), s1) \<and>
      length (history s1) = 1 \<and>
      get_history (hist_array_edit (HCopy i) (\<lambda>xs. []) s1) = (Returned (HCopy j), s3) \<and>
      hist_deref s3 (HCopy i) = Some [] \<and>
      hist_deref s3 (HCopy j) = Some (history (state_of manual_var)) \<and>
      length (history s3) = 1"
proof -
  let ?w = "state_of manual_var"
  have t: "trackHistory (opts ?w)" and l: "length (history ?w) = 1"
    by (simp_all add: manual_var_def eval_defs)
  from history_read_returns_fresh_copy [OF t]
  obtain i s1 where a: "get_history ?w = (Returned (HCopy i), s1)"
    and b: "history s1 = history ?w"
    and c: "\<forall>f. \<exists>j s3.
              history (hist_array_edit (HCopy i) f s1) = history ?w \<and>
              hist_deref (hist_array_edit (HCopy i) f s1) (HCopy i) = Some (f (history ?w)) \<and>
              j_history (toJSON (hist_array_edit (HCopy i) f s1)) = Some HInternal \<and>
              hist_deref (hist_array_edit (HCopy i) f s1) HInternal = Some (history ?w) \<and>
              get_history (hist_array_edit (HCopy i) f s1) = (Returned (HCopy j), s3) \<and>
              j \<noteq> i \<and>
              hist_deref s3 (HCopy j) = Some (history ?w)"
    by blast
  from c obtain j s3 where
    d: "get_history (hist_array_edit (HCopy i) (\<lambda>xs. []) s1) = (Returned (HCopy j), s3)"
    and e: "hist_deref s3 (HCopy j) = Some (history ?w)"
    and f: "hist_deref (hist_array_edit (HCopy i) (\<lambda>xs. []) s1) (HCopy i) = Some []"
    and g: "history (hist_array_edit (HCopy i) (\<lambda>xs. []) s1) = history ?w"
    and ji: "j \<noteq> i"
    by metis
  from d have s3: "s3 = snd (get_history (hist_array_edit (HCopy i) (\<lambda>xs. []) s1))"
    by simp
  from f s3 have f': "hist_deref s3 (HCopy i) = Some []"
    by (auto simp: get_history_def hist_deref_def nth_append split: if_splits)
  from g s3 have g': "history s3 = history ?w"
    by (auto simp: get_history_def split: if_splits)
  from a b d e f' g' l show ?thesis
    by auto
qed

end
